theory Spec2Isabelle
  imports Complex_Main
begin

section \<open>Values that cross the backend boundary\<close>

text \<open>
  Event payloads and command results reach \<^verbatim>\<open>main.js\<close> as JSON-decoded JavaScript
  values. A JSON number is a finite double; the source only compares sequence numbers
  (\<^verbatim>\<open>>=\<close>, \<^verbatim>\<open>!==\<close>) and never computes with them, so a number is modelled by the
  rational it denotes (JSON has no literal for NaN or the infinities).
\<close>

datatype jsval =
    JUndefined
  | JNull
  | JBool bool
  | JNum rat
  | JStr string
  | JArr "jsval list"
  | JObj "(string \<times> jsval) list"

text \<open>The truthiness test behind \<^verbatim>\<open>!x\<close> and \<^verbatim>\<open>x && ...\<close>.\<close>

fun truthy :: "jsval \<Rightarrow> bool" where
  "truthy JUndefined = False"
| "truthy JNull = False"
| "truthy (JBool b) = b"
| "truthy (JNum q) = (q \<noteq> 0)"
| "truthy (JStr t) = (t \<noteq> [])"
| "truthy (JArr _) = True"
| "truthy (JObj _) = True"

text \<open>
  Property read \<^verbatim>\<open>x.k\<close> on a truthy value, for the keys the source reads
  (\<^verbatim>\<open>seq\<close>, \<^verbatim>\<open>line\<close> and \<^verbatim>\<open>payload\<close>): an object, given by its key/value pairs with
  distinct keys, yields its field or \<^verbatim>\<open>undefined\<close>; primitives and arrays have no such
  property.
\<close>

fun field :: "jsval \<Rightarrow> string \<Rightarrow> jsval" where
  "field (JObj fs) k = (case map_of fs k of None \<Rightarrow> JUndefined | Some v \<Rightarrow> v)"
| "field _ k = JUndefined"

fun is_number :: "jsval \<Rightarrow> bool" where
  "is_number (JNum _) = True"
| "is_number _ = False"

fun is_string :: "jsval \<Rightarrow> bool" where
  "is_string (JStr _) = True"
| "is_string _ = False"

fun isArray :: "jsval \<Rightarrow> bool" where
  "isArray (JArr _) = True"
| "isArray _ = False"

fun array_length :: "jsval \<Rightarrow> nat" where
  "array_length (JArr items) = length items"
| "array_length _ = 0"

text \<open>Whether a number is an integer (what \<^verbatim>\<open>Number.isInteger\<close> would test).\<close>

definition is_integer :: "jsval \<Rightarrow> bool" where
  "is_integer v = (case v of JNum q \<Rightarrow> of_int \<lfloor>q\<rfloor> = q | _ \<Rightarrow> False)"

section \<open>Log entries and module state\<close>

record entry =
  seq :: rat
  line :: string

text \<open>
  The shape test shared by \<^verbatim>\<open>addLog\<close> and \<^verbatim>\<open>normalizeEntries\<close>:
  \<^verbatim>\<open>!item || typeof item.seq !== "number" || typeof item.line !== "string"\<close> rejects;
  otherwise the pair \<^verbatim>\<open>{seq, line}\<close> is what is stored.
\<close>

definition shape_ok :: "jsval \<Rightarrow> bool" where
  "shape_ok item =
     (\<not> (\<not> truthy item \<or> \<not> is_number (field item ''seq'') \<or> \<not> is_string (field item ''line'')))"

definition as_entry :: "jsval \<Rightarrow> entry option" where
  "as_entry item =
     (if \<not> truthy item then None
      else case field item ''seq'' of
        JNum q \<Rightarrow> (case field item ''line'' of
                     JStr t \<Rightarrow> Some \<lparr>seq = q, line = t\<rparr>
                   | _ \<Rightarrow> None)
      | _ \<Rightarrow> None)"

text \<open>
  Text shown in the inline error element: the fixed prompt of \<^verbatim>\<open>startPing\<close> asking for
  a target address (a non-empty literal), or any other text.
\<close>

datatype message = AddressRequired | Text string

text \<open>A backend command that has been invoked, and a continuation suspended on its promise.\<close>

datatype command = StartPing string | GetRecentLogs | StopPing

datatype task =
    AwaitStart
  | AwaitPollInStart
  | AwaitPoll
  | AwaitStop

text \<open>
  The module-level variables of \<^verbatim>\<open>main.js\<close> together with what the page and the
  runtime hold for it: the text of the address box, of the inline error and of the log
  path, the number of \<^verbatim>\<open>renderLogs\<close> calls so far with the list items and the
  "no data" marker they left, the active \<^verbatim>\<open>setInterval\<close> timers (handle and period in
  milliseconds; the callback is always \<^verbatim>\<open>fetchLogs\<close>), the backend commands invoked so
  far, and the continuations waiting on a backend promise.
\<close>

record state =
  logs :: "entry list"
  running :: bool
  pollTimer :: "nat option"
  autoScroll :: bool
  addressInput :: string
  errorText :: message
  logPath :: string
  renders :: nat
  shown :: "entry list"
  logEmptyHidden :: bool
  intervals :: "(nat \<times> nat) list"
  nextHandle :: nat
  calls :: "command list"
  pending :: "task list"

definition maxLogs :: nat where
  "maxLogs = 100"

definition initial :: state where
  "initial = \<lparr>logs = [], running = False, pollTimer = None, autoScroll = True,
     addressInput = [], errorText = Text [], logPath = [], renders = 0, shown = [],
     logEmptyHidden = False, intervals = [], nextHandle = 1, calls = [], pending = []\<rparr>"

section \<open>The log buffer: \<^verbatim>\<open>renderLogs\<close>, \<^verbatim>\<open>addLog\<close>, \<^verbatim>\<open>logsEqual\<close>, \<^verbatim>\<open>normalizeEntries\<close>, \<^verbatim>\<open>fetchLogs\<close>\<close>

text \<open>
  \<^verbatim>\<open>renderLogs\<close>, on a page that has the list element and the "no data" marker: it
  empties the list, then either shows the marker or one item per buffered entry. Scroll
  offsets depend on layout and are not modelled.
\<close>

definition renderLogs :: "state \<Rightarrow> state" where
  "renderLogs s =
     (let s1 = s\<lparr>renders := Suc (renders s), shown := []\<rparr> in
      if logs s1 = [] then s1\<lparr>logEmptyHidden := False\<rparr>
      else s1\<lparr>logEmptyHidden := True, shown := logs s1\<rparr>)"

definition addLog :: "jsval \<Rightarrow> state \<Rightarrow> state" where
  "addLog item s =
     (case as_entry item of
        None \<Rightarrow> s
      | Some e \<Rightarrow>
          if logs s \<noteq> [] \<and> seq (last (logs s)) \<ge> seq e then s
          else
            let pushed = logs s @ [e];
                kept = (if length pushed > maxLogs then tl pushed else pushed)
            in renderLogs (s\<lparr>logs := kept\<rparr>))"

fun logsEqual_loop :: "entry list \<Rightarrow> entry list \<Rightarrow> bool" where
  "logsEqual_loop (a # as) (b # bs) =
     (if seq a \<noteq> seq b \<or> line a \<noteq> line b then False else logsEqual_loop as bs)"
| "logsEqual_loop _ _ = True"

definition logsEqual :: "entry list \<Rightarrow> entry list \<Rightarrow> bool" where
  "logsEqual cur nxt = (if length cur \<noteq> length nxt then False else logsEqual_loop cur nxt)"

fun keep_valid :: "jsval list \<Rightarrow> entry list" where
  "keep_valid [] = []"
| "keep_valid (item # rest) =
     (case as_entry item of None \<Rightarrow> keep_valid rest | Some e \<Rightarrow> e # keep_valid rest)"

fun normalizeEntries :: "jsval \<Rightarrow> entry list" where
  "normalizeEntries (JArr items) = keep_valid items"
| "normalizeEntries _ = []"

text \<open>
  Lines 143--153 of \<^verbatim>\<open>fetchLogs\<close>: what happens to the sanitized window \<^verbatim>\<open>entries\<close>
  once the response has not been discarded.
\<close>

definition reconcile :: "entry list \<Rightarrow> state \<Rightarrow> state" where
  "reconcile entries s =
     (if entries = [] \<and> logs s = [] then renderLogs s
      else
        let sliced = take maxLogs entries in
        if logsEqual (logs s) sliced then s
        else renderLogs (s\<lparr>logs := sliced\<rparr>))"

text \<open>
  The guard of line 140: the response is a non-empty array none of whose elements has
  the entry shape.
\<close>

definition discarded :: "jsval \<Rightarrow> bool" where
  "discarded recent =
     (normalizeEntries recent = [] \<and> truthy recent \<and> isArray recent \<and> array_length recent > 0)"

text \<open>
  The part of \<^verbatim>\<open>fetchLogs\<close> after \<^verbatim>\<open>await invoke("get_recent_logs")\<close> has resolved
  with \<^verbatim>\<open>recent\<close>.
\<close>

definition fetchLogs_resolved :: "jsval \<Rightarrow> state \<Rightarrow> state" where
  "fetchLogs_resolved recent s =
     (let entries = normalizeEntries recent in
      if discarded recent then s else reconcile entries s)"

text \<open>A settled promise: rejected with a message, or resolved with a value.\<close>

datatype 'a settled = Rejected string | Resolved 'a

text \<open>The \<^verbatim>\<open>catch\<close> of \<^verbatim>\<open>fetchLogs\<close> ignores a rejected poll.\<close>

fun fetchLogs_settled :: "jsval settled \<Rightarrow> state \<Rightarrow> state" where
  "fetchLogs_settled (Rejected _) s = s"
| "fetchLogs_settled (Resolved recent) s = fetchLogs_resolved recent s"

text \<open>The object literal \<^verbatim>\<open>{ seq: q, line: t }\<close>.\<close>

definition obj_entry :: "rat \<Rightarrow> string \<Rightarrow> jsval" where
  "obj_entry q t = JObj [(''seq'', JNum q), (''line'', JStr t)]"

text \<open>
  The \<^verbatim>\<open>ping-log\<close> listener: takes the payload of the event, destructures \<^verbatim>\<open>seq\<close> and
  \<^verbatim>\<open>line\<close> from it and hands the pair to \<^verbatim>\<open>addLog\<close>.
\<close>

definition ping_log_listener :: "jsval \<Rightarrow> state \<Rightarrow> state" where
  "ping_log_listener ev s =
     (let payload = (if truthy ev \<and> truthy (field ev ''payload'') then field ev ''payload'' else JNull) in
      if \<not> truthy payload then s
      else addLog (JObj [(''seq'', field payload ''seq''), (''line'', field payload ''line'')]) s)"

section \<open>Lifecycle: \<^verbatim>\<open>startPing\<close> and \<^verbatim>\<open>stopPing\<close>\<close>

text \<open>
  \<^verbatim>\<open>String.prototype.trim\<close> on the address. Text is modelled with one \<open>char\<close> per code
  unit below 256; the white space and line terminators in that range are the six ASCII
  ones and the no-break space.
\<close>

definition is_space :: "char \<Rightarrow> bool" where
  "is_space c = (of_char c \<in> {9, 10, 11, 12, 13, 32, 160 :: nat})"

definition trim :: "string \<Rightarrow> string" where
  "trim t = rev (dropWhile is_space (rev (dropWhile is_space t)))"

definition setError :: "message \<Rightarrow> state \<Rightarrow> state" where
  "setError m s = s\<lparr>errorText := m\<rparr>"

text \<open>
  \<^verbatim>\<open>setRunning\<close>; the disabled flags of the widgets and the status line it also sets are
  functions of the flag and of the address, and are not kept separately.
\<close>

definition setRunning :: "bool \<Rightarrow> state \<Rightarrow> state" where
  "setRunning nxt s = s\<lparr>running := nxt\<rparr>"

text \<open>
  \<^verbatim>\<open>await invoke(c)\<close>: the command is sent and the rest of the async function is
  suspended as continuation \<open>k\<close> until the promise settles.
\<close>

definition invoke :: "command \<Rightarrow> task \<Rightarrow> state \<Rightarrow> state" where
  "invoke c k s = s\<lparr>calls := calls s @ [c], pending := pending s @ [k]\<rparr>"

text \<open>\<^verbatim>\<open>setInterval(fetchLogs, period)\<close> and \<^verbatim>\<open>clearInterval(h)\<close>; handles are positive.\<close>

definition setInterval :: "nat \<Rightarrow> state \<Rightarrow> nat \<times> state" where
  "setInterval period s =
     (nextHandle s,
      s\<lparr>intervals := intervals s @ [(nextHandle s, period)], nextHandle := Suc (nextHandle s)\<rparr>)"

definition clearInterval :: "nat \<Rightarrow> state \<Rightarrow> state" where
  "clearInterval h s = s\<lparr>intervals := filter (\<lambda>(k, p). k \<noteq> h) (intervals s)\<rparr>"

text \<open>
  \<^verbatim>\<open>fetchLogs\<close> up to its \<^verbatim>\<open>await\<close>. The handlers that lead here are installed only
  when \<^verbatim>\<open>invoke\<close> exists, so the guard of line 134 does not fire.
\<close>

definition fetchLogs_begin :: "task \<Rightarrow> state \<Rightarrow> state" where
  "fetchLogs_begin k s = invoke GetRecentLogs k s"

text \<open>\<^verbatim>\<open>startPing\<close> up to \<^verbatim>\<open>await invoke("start_ping", { address })\<close>.\<close>

definition startPing_begin :: "state \<Rightarrow> state" where
  "startPing_begin s =
     (let address = trim (addressInput s) in
      if address = [] then setError AddressRequired s
      else invoke (StartPing address) AwaitStart (setError (Text []) s))"

text \<open>\<^verbatim>\<open>startPing\<close> from the resolved start call up to \<^verbatim>\<open>await fetchLogs()\<close>.\<close>

definition startPing_resolved :: "string \<Rightarrow> state \<Rightarrow> state" where
  "startPing_resolved baseDir s =
     (let s1 = s\<lparr>logPath := baseDir\<rparr>;
          s2 = renderLogs (s1\<lparr>logs := []\<rparr>);
          s3 = s2\<lparr>autoScroll := True\<rparr>;
          s4 = setRunning True s3
      in fetchLogs_begin AwaitPollInStart s4)"

text \<open>\<^verbatim>\<open>startPing\<close> after \<^verbatim>\<open>await fetchLogs()\<close>: lines 394--397.\<close>

definition startPing_arm :: "state \<Rightarrow> state" where
  "startPing_arm s =
     (let s1 = (case pollTimer s of Some h \<Rightarrow> clearInterval h s | None \<Rightarrow> s);
          (h', s2) = setInterval 1000 s1
      in s2\<lparr>pollTimer := Some h'\<rparr>)"

text \<open>The \<^verbatim>\<open>catch\<close> of \<^verbatim>\<open>startPing\<close> and of \<^verbatim>\<open>stopPing\<close>.\<close>

definition startPing_rejected :: "string \<Rightarrow> state \<Rightarrow> state" where
  "startPing_rejected err s = setError (Text err) s"

definition stopPing_begin :: "state \<Rightarrow> state" where
  "stopPing_begin s = invoke StopPing AwaitStop (setError (Text []) s)"

definition stopPing_resolved :: "state \<Rightarrow> state" where
  "stopPing_resolved s =
     (let s1 = setRunning False s in
      case pollTimer s1 of
        Some h \<Rightarrow> (clearInterval h s1)\<lparr>pollTimer := None\<rparr>
      | None \<Rightarrow> s1)"

definition stopPing_rejected :: "string \<Rightarrow> state \<Rightarrow> state" where
  "stopPing_rejected err s = setError (Text err) s"

section \<open>The event loop\<close>

text \<open>
  All handlers run on one thread; between two \<^verbatim>\<open>await\<close>s a handler is atomic, and the
  runtime may deliver in any order: an edit of the address box, a click on start or
  stop, a push event, a tick of an active interval, and the settlement of any pending
  backend promise.
\<close>

datatype reply =
    StartReply "string settled"
  | PollReply "jsval settled"
  | StopReply "unit settled"

datatype event =
    TypeAddress string
  | ClickStart
  | ClickStop
  | PingLog jsval
  | Tick nat
  | Settle nat reply

definition resume :: "task \<Rightarrow> reply \<Rightarrow> state \<Rightarrow> state option" where
  "resume k r s =
     (case (k, r) of
        (AwaitStart, StartReply (Resolved baseDir)) \<Rightarrow> Some (startPing_resolved baseDir s)
      | (AwaitStart, StartReply (Rejected err)) \<Rightarrow> Some (startPing_rejected err s)
      | (AwaitPollInStart, PollReply p) \<Rightarrow> Some (startPing_arm (fetchLogs_settled p s))
      | (AwaitPoll, PollReply p) \<Rightarrow> Some (fetchLogs_settled p s)
      | (AwaitStop, StopReply (Resolved _)) \<Rightarrow> Some (stopPing_resolved s)
      | (AwaitStop, StopReply (Rejected err)) \<Rightarrow> Some (stopPing_rejected err s)
      | _ \<Rightarrow> None)"

text \<open>
  One event. A tick of a handle that is not active, and a settlement that names no
  pending promise or carries a reply of the wrong command, are not events of the
  system and leave the state as it is.
\<close>

fun step :: "event \<Rightarrow> state \<Rightarrow> state" where
  "step (TypeAddress t) s = s\<lparr>addressInput := t\<rparr>"
| "step ClickStart s = startPing_begin s"
| "step ClickStop s = stopPing_begin s"
| "step (PingLog ev) s = ping_log_listener ev s"
| "step (Tick h) s =
     (if h \<in> fst ` set (intervals s) then fetchLogs_begin AwaitPoll s else s)"
| "step (Settle i r) s =
     (if i < length (pending s) then
        (case resume (pending s ! i) r (s\<lparr>pending := take i (pending s) @ drop (Suc i) (pending s)\<rparr>) of
           Some s' \<Rightarrow> s'
         | None \<Rightarrow> s)
      else s)"

definition run :: "event list \<Rightarrow> state \<Rightarrow> state" where
  "run evs s = fold step evs s"

text \<open>Poll requests whose promise has not settled yet.\<close>

definition polls_in_flight :: "state \<Rightarrow> nat" where
  "polls_in_flight s = length (filter (\<lambda>k. k = AwaitPoll \<or> k = AwaitPollInStart) (pending s))"

text \<open>
  A whole call of \<^verbatim>\<open>startPing\<close> with nothing interleaved: the click, then the start
  command settling with \<open>sr\<close>, then (if it resolved) the immediate poll settling with
  \<open>p\<close>. With a blank address no promise is created and the settlements name nothing.
\<close>

definition startPing :: "string settled \<Rightarrow> jsval settled \<Rightarrow> state \<Rightarrow> state" where
  "startPing sr p s =
     (let n = length (pending s) in
      case sr of
        Rejected err \<Rightarrow> run [ClickStart, Settle n (StartReply (Rejected err))] s
      | Resolved baseDir \<Rightarrow>
          run [ClickStart, Settle n (StartReply (Resolved baseDir)), Settle n (PollReply p)] s)"

text \<open>A whole call of \<^verbatim>\<open>stopPing\<close> with nothing interleaved.\<close>

definition stopPing :: "unit settled \<Rightarrow> state \<Rightarrow> state" where
  "stopPing sr s = run [ClickStop, Settle (length (pending s)) (StopReply sr)] s"

text \<open>
  No stale timer: the active intervals are exactly the one whose handle \<^verbatim>\<open>pollTimer\<close>
  holds, with the period of one second, or none when \<^verbatim>\<open>pollTimer\<close> is \<^verbatim>\<open>null\<close>.
\<close>

definition one_timer :: "state \<Rightarrow> bool" where
  "one_timer s = (intervals s = (case pollTimer s of None \<Rightarrow> [] | Some h \<Rightarrow> [(h, 1000)]))"

text \<open>
  A settled poll that reaches line 143 of \<^verbatim>\<open>fetchLogs\<close> with no entry: it resolved,
  nothing of it survived \<^verbatim>\<open>normalizeEntries\<close>, and the guard of line 140 let it pass.
\<close>

fun empty_window :: "jsval settled \<Rightarrow> bool" where
  "empty_window (Resolved recent) = (normalizeEntries recent = [] \<and> \<not> discarded recent)"
| "empty_window (Rejected _) = False"

text \<open>
  An event whose poll snapshot, if it carries one, is ordered: the sanitized entries of a
  resolved poll are strictly increasing in \<^verbatim>\<open>seq\<close>.
\<close>

fun snapshot_ordered :: "event \<Rightarrow> bool" where
  "snapshot_ordered (Settle i (PollReply (Resolved recent))) =
     sorted_wrt (<) (map seq (normalizeEntries recent))"
| "snapshot_ordered _ = True"

section \<open>Basic facts about the buffer operations\<close>

lemma logsEqual_iff: "logsEqual a b \<longleftrightarrow> a = b"
  unfolding logsEqual_def
  by (induction a b rule: logsEqual_loop.induct) auto

lemma as_entry_None_iff: "as_entry item = None \<longleftrightarrow> \<not> shape_ok item"
  by (auto simp: as_entry_def shape_ok_def split: jsval.splits)

lemma as_entry_obj_entry: "as_entry (obj_entry q t) = Some \<lparr>seq = q, line = t\<rparr>"
  by (simp add: as_entry_def obj_entry_def)

lemma as_entry_destructured:
  "as_entry (JObj [(''seq'', field payload ''seq''), (''line'', field payload ''line'')]) =
     (case field payload ''seq'' of
        JNum q \<Rightarrow> (case field payload ''line'' of JStr t \<Rightarrow> Some \<lparr>seq = q, line = t\<rparr> | _ \<Rightarrow> None)
      | _ \<Rightarrow> None)"
  by (simp add: as_entry_def split: jsval.splits)

lemma addLog_invalid: "\<not> shape_ok item \<Longrightarrow> addLog item s = s"
  by (simp add: addLog_def as_entry_None_iff [symmetric])

lemma listener_invalid: "\<not> shape_ok (field ev ''payload'') \<Longrightarrow> ping_log_listener ev s = s"
  by (auto simp: ping_log_listener_def Let_def addLog_def as_entry_destructured shape_ok_def
      split: jsval.splits)

lemma logs_renderLogs: "logs (renderLogs s) = logs s"
  by (simp add: renderLogs_def Let_def)

lemma renders_renderLogs: "renders (renderLogs s) = Suc (renders s)"
  by (simp add: renderLogs_def Let_def)

lemma reconcile_cases:
  "reconcile entries s =
     (if entries = [] \<and> logs s = [] then renderLogs s
      else if logs s = take maxLogs entries then s
      else renderLogs (s\<lparr>logs := take maxLogs entries\<rparr>))"
  by (simp add: reconcile_def Let_def logsEqual_iff)

lemma logs_reconcile: "logs (reconcile entries s) = take maxLogs entries"
  by (auto simp: reconcile_cases logs_renderLogs)

lemma normalizeEntries_not_array: "\<not> isArray recent \<Longrightarrow> normalizeEntries recent = []"
  by (cases recent) simp_all

lemma keep_valid_sound:
  "e \<in> set (keep_valid items) \<Longrightarrow> \<exists>item \<in> set items. shape_ok item \<and> as_entry item = Some e"
proof (induction items)
  case Nil
  then show ?case by simp
next
  case (Cons item rest)
  show ?case
  proof (cases "as_entry item")
    case None
    with Cons show ?thesis by auto
  next
    case (Some e')
    then have "shape_ok item" using as_entry_None_iff [of item] by auto
    with Some Cons show ?thesis by auto
  qed
qed

lemma keep_valid_map_obj:
  "keep_valid (map (\<lambda>i. obj_entry (f i) (g i)) xs) = map (\<lambda>i. \<lparr>seq = f i, line = g i\<rparr>) xs"
  by (induction xs) (simp_all add: as_entry_obj_entry)

section \<open>Shape validation of push payloads\<close>

text \<open>
  Claim C10, as the code has it. A push payload whose \<^verbatim>\<open>seq\<close> is not a number or whose
  \<^verbatim>\<open>line\<close> is not a string (a missing field reads as \<^verbatim>\<open>undefined\<close>) is dropped: the
  listener, and \<^verbatim>\<open>addLog\<close> itself, return the state unchanged, so nothing is stored and
  nothing is rendered. Whenever the listener changes the buffer, the payload carried a
  number \<^verbatim>\<open>seq\<close> and a string \<^verbatim>\<open>line\<close>. The test is \<^verbatim>\<open>typeof seq === "number"\<close>:
  integrality is not examined.
\<close>

theorem push_shape_validation:
  "(\<not> shape_ok (field ev ''payload'') \<longrightarrow> ping_log_listener ev s = s) \<and>
   (logs (ping_log_listener ev s) \<noteq> logs s \<longrightarrow>
      is_number (field (field ev ''payload'') ''seq'') \<and>
      is_string (field (field ev ''payload'') ''line'')) \<and>
   (\<not> shape_ok item \<longrightarrow> addLog item s = s)"
proof (intro conjI impI)
  assume "\<not> shape_ok (field ev ''payload'')"
  then show "ping_log_listener ev s = s" by (rule listener_invalid)
next
  assume changed: "logs (ping_log_listener ev s) \<noteq> logs s"
  have "shape_ok (field ev ''payload'')"
    using changed listener_invalid [of ev s] by metis
  then show "is_number (field (field ev ''payload'') ''seq'')"
    and "is_string (field (field ev ''payload'') ''line'')"
    by (simp_all add: shape_ok_def)
next
  assume "\<not> shape_ok item"
  then show "addLog item s = s" by (rule addLog_invalid)
qed

text \<open>
  The three hypotheses met at concrete payloads: \<^verbatim>\<open>{seq: "7", line: "x"}\<close> is dropped,
  \<^verbatim>\<open>{seq: 7, line: "x"}\<close> is stored, and \<^verbatim>\<open>{seq: 7}\<close> handed to \<^verbatim>\<open>addLog\<close> is dropped.
\<close>

theorem push_shape_validation_witness:
  "\<not> shape_ok (field (JObj [(''payload'', JObj [(''seq'', JStr ''7''), (''line'', JStr ''x'')])]) ''payload'') \<and>
   ping_log_listener (JObj [(''payload'', JObj [(''seq'', JStr ''7''), (''line'', JStr ''x'')])]) initial = initial \<and>
   logs (ping_log_listener (JObj [(''payload'', obj_entry 7 ''x'')]) initial) \<noteq> logs initial \<and>
   is_number (field (field (JObj [(''payload'', obj_entry 7 ''x'')]) ''payload'') ''seq'') \<and>
   is_string (field (field (JObj [(''payload'', obj_entry 7 ''x'')]) ''payload'') ''line'') \<and>
   \<not> shape_ok (JObj [(''seq'', JNum 7)]) \<and>
   addLog (JObj [(''seq'', JNum 7)]) initial = initial"
proof -
  have a: "\<not> shape_ok (field (JObj [(''payload'', JObj [(''seq'', JStr ''7''), (''line'', JStr ''x'')])]) ''payload'')"
    by (simp add: shape_ok_def)
  have b: "logs (ping_log_listener (JObj [(''payload'', obj_entry 7 ''x'')]) initial) \<noteq> logs initial"
    by (simp add: ping_log_listener_def obj_entry_def addLog_def as_entry_def renderLogs_def
        initial_def maxLogs_def Let_def)
  have c: "\<not> shape_ok (JObj [(''seq'', JNum 7)])"
    by (simp add: shape_ok_def)
  note t1 = push_shape_validation [of "JObj [(''payload'', JObj [(''seq'', JStr ''7''), (''line'', JStr ''x'')])]" initial JNull]
  note t2 = push_shape_validation [of "JObj [(''payload'', obj_entry 7 ''x'')]" initial "JObj [(''seq'', JNum 7)]"]
  show ?thesis using a b c t1 t2 by blast
qed

text \<open>
  Against C10 as stated: the payload \<^verbatim>\<open>{seq: 1.5, line: "x"}\<close> has a non-integer \<^verbatim>\<open>seq\<close>,
  and the listener stores it in the empty buffer and renders.
\<close>

theorem push_fractional_seq_accepted:
  "\<not> is_integer (JNum (3 / 2)) \<and>
   logs (ping_log_listener (JObj [(''payload'', obj_entry (3 / 2) ''x'')]) initial)
     = [\<lparr>seq = 3 / 2, line = ''x''\<rparr>] \<and>
   renders (ping_log_listener (JObj [(''payload'', obj_entry (3 / 2) ''x'')]) initial) = 1"
proof -
  have "\<lfloor>3 / 2 :: rat\<rfloor> = 1"
    by (rule floor_unique) simp_all
  then have "\<not> is_integer (JNum (3 / 2))"
    by (simp add: is_integer_def)
  then show ?thesis
    by (simp add: ping_log_listener_def obj_entry_def addLog_def as_entry_def
        renderLogs_def initial_def maxLogs_def Let_def)
qed

section \<open>A poll snapshot against what push has delivered\<close>

text \<open>
  Claim C1, as the code has it. \<^verbatim>\<open>fetchLogs\<close> compares no sequence numbers between the
  buffer and the snapshot. When the buffer is not empty and the sanitized snapshot is
  not empty and has a strictly smaller maximum \<^verbatim>\<open>seq\<close> than the buffer, the snapshot
  differs from the buffer, so the buffer is replaced by the first \<^verbatim>\<open>maxLogs\<close> entries of
  the snapshot and rendered once.
\<close>

theorem poll_with_lower_max_replaces:
  assumes "logs s \<noteq> []" and "normalizeEntries recent \<noteq> []"
    and "Max (seq ` set (normalizeEntries recent)) < Max (seq ` set (logs s))"
  shows "logs (fetchLogs_resolved recent s) = take maxLogs (normalizeEntries recent) \<and>
         logs (fetchLogs_resolved recent s) \<noteq> logs s \<and>
         renders (fetchLogs_resolved recent s) = Suc (renders s)"
proof -
  let ?es = "normalizeEntries recent"
  have differ: "logs s \<noteq> take maxLogs ?es"
  proof
    assume eq: "logs s = take maxLogs ?es"
    then have "seq ` set (logs s) \<subseteq> seq ` set ?es"
      using set_take_subset [of maxLogs ?es] by auto
    moreover have "seq ` set (logs s) \<noteq> {}" using assms(1) by simp
    ultimately have "Max (seq ` set (logs s)) \<le> Max (seq ` set ?es)"
      by (intro Max_mono) auto
    with assms(3) show False by simp
  qed
  have nd: "\<not> discarded recent" using assms(2) by (simp add: discarded_def)
  have run: "fetchLogs_resolved recent s = renderLogs (s\<lparr>logs := take maxLogs ?es\<rparr>)"
    using nd differ assms(2) by (simp add: fetchLogs_resolved_def reconcile_cases)
  show ?thesis
    using differ by (simp add: run logs_renderLogs renders_renderLogs)
qed

text \<open>
  The hypotheses met: push has delivered \<^verbatim>\<open>{seq: 2, line: "b"}\<close> and the poll answers
  \<^verbatim>\<open>[{seq: 1, line: "a"}]\<close>.
\<close>

theorem poll_with_lower_max_replaces_witness:
  "logs (addLog (obj_entry 2 ''b'') initial) \<noteq> [] \<and>
   normalizeEntries (JArr [obj_entry 1 ''a'']) \<noteq> [] \<and>
   Max (seq ` set (normalizeEntries (JArr [obj_entry 1 ''a''])))
     < Max (seq ` set (logs (addLog (obj_entry 2 ''b'') initial))) \<and>
   logs (fetchLogs_resolved (JArr [obj_entry 1 ''a'']) (addLog (obj_entry 2 ''b'') initial))
     = take maxLogs (normalizeEntries (JArr [obj_entry 1 ''a'']))"
proof -
  have a: "logs (addLog (obj_entry 2 ''b'') initial) = [\<lparr>seq = 2, line = ''b''\<rparr>]"
    by (simp add: addLog_def as_entry_obj_entry initial_def maxLogs_def logs_renderLogs)
  have b: "normalizeEntries (JArr [obj_entry 1 ''a'']) = [\<lparr>seq = 1, line = ''a''\<rparr>]"
    by (simp add: as_entry_obj_entry)
  have h1: "logs (addLog (obj_entry 2 ''b'') initial) \<noteq> []" unfolding a by simp
  have h2: "normalizeEntries (JArr [obj_entry 1 ''a'']) \<noteq> []" unfolding b by simp
  have h3: "Max (seq ` set (normalizeEntries (JArr [obj_entry 1 ''a''])))
     < Max (seq ` set (logs (addLog (obj_entry 2 ''b'') initial)))"
    unfolding a b by simp
  show ?thesis
    using h1 h2 h3 poll_with_lower_max_replaces [OF h1 h2 h3] by blast
qed

text \<open>
  Against C1 as stated: after push has delivered \<^verbatim>\<open>seq = 2\<close>, a poll snapshot whose
  maximum \<^verbatim>\<open>seq\<close> is 1 overwrites the buffer.
\<close>

theorem poll_rewinds_pushed_entry:
  "logs (addLog (obj_entry 2 ''b'') initial) = [\<lparr>seq = 2, line = ''b''\<rparr>] \<and>
   normalizeEntries (JArr [obj_entry 1 ''a'']) = [\<lparr>seq = 1, line = ''a''\<rparr>] \<and>
   logs (fetchLogs_resolved (JArr [obj_entry 1 ''a'']) (addLog (obj_entry 2 ''b'') initial))
     = [\<lparr>seq = 1, line = ''a''\<rparr>]"
  by (simp add: fetchLogs_resolved_def discarded_def logs_reconcile addLog_def as_entry_obj_entry
      initial_def maxLogs_def logs_renderLogs)

lemma fetchLogs_resolved_eq:
  "fetchLogs_resolved recent s =
     (if discarded recent then s else reconcile (normalizeEntries recent) s)"
  by (simp add: fetchLogs_resolved_def Let_def)

lemma reconcile_twice:
  "entries \<noteq> [] \<Longrightarrow> reconcile entries (reconcile entries s) = reconcile entries s"
  by (simp add: reconcile_cases [of entries "reconcile entries s"] logs_reconcile)

lemma reconcile_empty_twice:
  "renders (reconcile [] (reconcile [] s)) = Suc (renders (reconcile [] s))"
  by (simp add: reconcile_cases [of "[]" "reconcile [] s"] logs_reconcile renders_renderLogs)

section \<open>Sanitizing the poll response\<close>

text \<open>
  Claim C3, as the code has it. A response that is a non-empty array with no element of
  the entry shape is discarded: the whole state stays as it was, with no render. A
  response that is not an array is handled as an empty window, so the buffer is empty
  afterwards. In every case the buffer afterwards is either the old buffer or the first
  \<^verbatim>\<open>maxLogs\<close> valid elements of the response, so each stored entry was already stored or
  is the \<^verbatim>\<open>{seq, line}\<close> pair of an element of the response that has the entry shape:
  no invalid element is ever stored. A rejected poll changes nothing.
\<close>

theorem poll_response_sanitized:
  "(isArray recent \<and> array_length recent > 0 \<and> normalizeEntries recent = []
      \<longrightarrow> fetchLogs_resolved recent s = s) \<and>
   (\<not> isArray recent \<longrightarrow> logs (fetchLogs_resolved recent s) = []) \<and>
   (logs (fetchLogs_resolved recent s) = logs s \<or>
    logs (fetchLogs_resolved recent s) = take maxLogs (normalizeEntries recent)) \<and>
   (\<forall>e \<in> set (logs (fetchLogs_resolved recent s)).
      e \<in> set (logs s) \<or>
      (\<exists>items item. recent = JArr items \<and> item \<in> set items \<and> shape_ok item \<and> as_entry item = Some e)) \<and>
   fetchLogs_settled (Rejected err) s = s"
proof (intro conjI impI ballI)
  assume "isArray recent \<and> 0 < array_length recent \<and> normalizeEntries recent = []"
  then have "discarded recent"
    by (cases recent) (simp_all add: discarded_def)
  then show "fetchLogs_resolved recent s = s"
    by (simp add: fetchLogs_resolved_def)
next
  assume "\<not> isArray recent"
  then have "normalizeEntries recent = []" and "\<not> discarded recent"
    by (simp_all add: normalizeEntries_not_array discarded_def)
  then show "logs (fetchLogs_resolved recent s) = []"
    by (simp add: fetchLogs_resolved_def logs_reconcile)
next
  show "logs (fetchLogs_resolved recent s) = logs s \<or>
        logs (fetchLogs_resolved recent s) = take maxLogs (normalizeEntries recent)"
    by (simp add: fetchLogs_resolved_def logs_reconcile)
next
  fix e
  assume mem: "e \<in> set (logs (fetchLogs_resolved recent s))"
  show "e \<in> set (logs s) \<or>
        (\<exists>items item. recent = JArr items \<and> item \<in> set items \<and> shape_ok item \<and> as_entry item = Some e)"
  proof (cases "discarded recent")
    case True
    with mem show ?thesis by (simp add: fetchLogs_resolved_def)
  next
    case False
    with mem have "e \<in> set (take maxLogs (normalizeEntries recent))"
      by (simp add: fetchLogs_resolved_def logs_reconcile)
    then have in_norm: "e \<in> set (normalizeEntries recent)"
      by (rule in_set_takeD)
    then obtain items where arr: "recent = JArr items"
      by (cases recent) simp_all
    with in_norm have "e \<in> set (keep_valid items)" by simp
    from keep_valid_sound [OF this] arr show ?thesis by blast
  qed
next
  show "fetchLogs_settled (Rejected err) s = s" by simp
qed

text \<open>
  The hypotheses met: \<^verbatim>\<open>[null]\<close> is discarded, \<^verbatim>\<open>null\<close> empties the buffer, and of
  \<^verbatim>\<open>[{seq: 5, line: "x"}, null]\<close> the valid element alone is stored.
\<close>

theorem poll_response_sanitized_witness:
  "isArray (JArr [JNull]) \<and> array_length (JArr [JNull]) > 0 \<and> normalizeEntries (JArr [JNull]) = [] \<and>
   fetchLogs_resolved (JArr [JNull]) (addLog (obj_entry 1 ''a'') initial) = addLog (obj_entry 1 ''a'') initial \<and>
   \<not> isArray JNull \<and>
   logs (fetchLogs_resolved JNull (addLog (obj_entry 1 ''a'') initial)) = [] \<and>
   \<lparr>seq = 5, line = ''x''\<rparr> \<in> set (logs (fetchLogs_resolved (JArr [obj_entry 5 ''x'', JNull]) initial)) \<and>
   (\<lparr>seq = 5, line = ''x''\<rparr> \<in> set (logs initial) \<or>
    (\<exists>items item. JArr [obj_entry 5 ''x'', JNull] = JArr items \<and> item \<in> set items \<and> shape_ok item \<and>
        as_entry item = Some \<lparr>seq = 5, line = ''x''\<rparr>))"
proof -
  have a: "isArray (JArr [JNull]) \<and> array_length (JArr [JNull]) > 0 \<and> normalizeEntries (JArr [JNull]) = []"
    by (simp add: as_entry_def)
  have b: "\<not> isArray JNull" by simp
  have c: "\<lparr>seq = 5, line = ''x''\<rparr> \<in> set (logs (fetchLogs_resolved (JArr [obj_entry 5 ''x'', JNull]) initial))"
    by (simp add: fetchLogs_resolved_def discarded_def logs_reconcile as_entry_obj_entry
        as_entry_def [of JNull] maxLogs_def)
  note t1 = poll_response_sanitized [of "JArr [JNull]" "addLog (obj_entry 1 ''a'') initial" "[]"]
  note t2 = poll_response_sanitized [of JNull "addLog (obj_entry 1 ''a'') initial" "[]"]
  note t3 = poll_response_sanitized [of "JArr [obj_entry 5 ''x'', JNull]" initial "[]"]
  from t1 a have r1: "fetchLogs_resolved (JArr [JNull]) (addLog (obj_entry 1 ''a'') initial) = addLog (obj_entry 1 ''a'') initial"
    by blast
  from t2 b have r2: "logs (fetchLogs_resolved JNull (addLog (obj_entry 1 ''a'') initial)) = []"
    by blast
  from t3 c have r3: "\<lparr>seq = 5, line = ''x''\<rparr> \<in> set (logs initial) \<or>
    (\<exists>items item. JArr [obj_entry 5 ''x'', JNull] = JArr items \<and> item \<in> set items \<and> shape_ok item \<and>
        as_entry item = Some \<lparr>seq = 5, line = ''x''\<rparr>)"
    by blast
  show ?thesis using a b c r1 r2 r3 by blast
qed

text \<open>
  Against C3 as stated: the response \<^verbatim>\<open>null\<close> is not an array, and it clears a buffer
  that held one entry, with a render.
\<close>

theorem non_array_poll_clears_buffer:
  "\<not> isArray JNull \<and>
   logs (addLog (obj_entry 1 ''a'') initial) = [\<lparr>seq = 1, line = ''a''\<rparr>] \<and>
   logs (fetchLogs_resolved JNull (addLog (obj_entry 1 ''a'') initial)) = [] \<and>
   renders (fetchLogs_resolved JNull (addLog (obj_entry 1 ''a'') initial))
     = Suc (renders (addLog (obj_entry 1 ''a'') initial))"
  by (simp add: fetchLogs_resolved_def discarded_def reconcile_cases addLog_def as_entry_obj_entry
      initial_def maxLogs_def logs_renderLogs renders_renderLogs)

section \<open>Idempotence of reconciliation\<close>

lemma addLog_twice: "addLog item (addLog item s) = addLog item s"
proof (cases "as_entry item")
  case None
  then show ?thesis by (simp add: addLog_def)
next
  case (Some e)
  show ?thesis
  proof (cases "logs s \<noteq> [] \<and> seq (last (logs s)) \<ge> seq e")
    case True
    with Some show ?thesis by (simp add: addLog_def)
  next
    case False
    define kept where "kept = (if length (logs s @ [e]) > maxLogs then tl (logs s @ [e]) else logs s @ [e])"
    have first: "addLog item s = renderLogs (s\<lparr>logs := kept\<rparr>)"
      using Some False by (auto simp: addLog_def Let_def kept_def)
    have "kept \<noteq> [] \<and> last kept = e"
      by (cases "logs s") (auto simp: kept_def maxLogs_def)
    then have "logs (addLog item s) \<noteq> [] \<and> seq (last (logs (addLog item s))) \<ge> seq e"
      by (simp add: first logs_renderLogs)
    then show ?thesis using Some by (simp add: addLog_def [of item "addLog item s"])
  qed
qed

lemma listener_twice: "ping_log_listener ev (ping_log_listener ev s) = ping_log_listener ev s"
  by (simp add: ping_log_listener_def Let_def addLog_twice)

text \<open>
  Claim C5, as the code has it. Applying the same settled poll twice leaves the same
  buffer as applying it once. Unless the poll is an empty window (it resolved, no entry
  survived sanitizing and it was not discarded), the second application changes nothing
  at all, so it does not render; for an empty window the second application finds the
  buffer empty and renders it once more. Handing the same entry to \<^verbatim>\<open>addLog\<close> twice, or
  the same event to the push listener twice, gives the state of the first delivery.
\<close>

theorem reconciliation_idempotent:
  "logs (fetchLogs_settled r (fetchLogs_settled r s)) = logs (fetchLogs_settled r s) \<and>
   (\<not> empty_window r \<longrightarrow> fetchLogs_settled r (fetchLogs_settled r s) = fetchLogs_settled r s) \<and>
   (empty_window r \<longrightarrow>
      renders (fetchLogs_settled r (fetchLogs_settled r s)) = Suc (renders (fetchLogs_settled r s))) \<and>
   addLog item (addLog item s) = addLog item s \<and>
   ping_log_listener ev (ping_log_listener ev s) = ping_log_listener ev s"
proof (cases r)
  case (Rejected err)
  then show ?thesis by (simp add: addLog_twice listener_twice)
next
  case (Resolved recent)
  show ?thesis
  proof (cases "discarded recent")
    case True
    with Resolved show ?thesis
      by (simp add: fetchLogs_resolved_def addLog_twice listener_twice)
  next
    case nd: False
    show ?thesis
    proof (cases "normalizeEntries recent = []")
      case True
      with nd Resolved show ?thesis
        by (simp add: fetchLogs_resolved_eq logs_reconcile reconcile_empty_twice
            addLog_twice listener_twice)
    next
      case False
      with nd Resolved show ?thesis
        by (simp add: fetchLogs_resolved_eq logs_reconcile reconcile_twice
            addLog_twice listener_twice)
    qed
  qed
qed

text \<open>
  The hypotheses met: \<^verbatim>\<open>[{seq: 1, line: "a"}]\<close> is not an empty window, \<^verbatim>\<open>[]\<close> is one.
\<close>

theorem reconciliation_idempotent_witness:
  "\<not> empty_window (Resolved (JArr [obj_entry 1 ''a''])) \<and>
   fetchLogs_settled (Resolved (JArr [obj_entry 1 ''a''])) (fetchLogs_settled (Resolved (JArr [obj_entry 1 ''a''])) initial)
     = fetchLogs_settled (Resolved (JArr [obj_entry 1 ''a''])) initial \<and>
   empty_window (Resolved (JArr [])) \<and>
   renders (fetchLogs_settled (Resolved (JArr [])) (fetchLogs_settled (Resolved (JArr [])) initial))
     = Suc (renders (fetchLogs_settled (Resolved (JArr [])) initial))"
proof -
  have a: "\<not> empty_window (Resolved (JArr [obj_entry 1 ''a'']))"
    by (simp add: as_entry_obj_entry)
  have b: "empty_window (Resolved (JArr []))"
    by (simp add: discarded_def)
  note t1 = reconciliation_idempotent [of "Resolved (JArr [obj_entry 1 ''a''])" initial JNull JNull]
  note t2 = reconciliation_idempotent [of "Resolved (JArr [])" initial JNull JNull]
  show ?thesis using a b t1 t2 by blast
qed

text \<open>
  Against C5 as stated: on the empty buffer the snapshot \<^verbatim>\<open>[]\<close> applied twice leaves
  the buffer as it was and renders twice.
\<close>

theorem empty_poll_renders_again:
  "logs (fetchLogs_settled (Resolved (JArr [])) initial) = logs initial \<and>
   renders (fetchLogs_settled (Resolved (JArr [])) initial) = 1 \<and>
   logs (fetchLogs_settled (Resolved (JArr [])) (fetchLogs_settled (Resolved (JArr [])) initial)) = logs initial \<and>
   renders (fetchLogs_settled (Resolved (JArr [])) (fetchLogs_settled (Resolved (JArr [])) initial)) = 2"
  by (simp add: fetchLogs_resolved_def discarded_def reconcile_cases logs_renderLogs
      renders_renderLogs initial_def)

section \<open>Replacing the buffer by a poll window\<close>

text \<open>
  Claim C6, as the code has it, for a sanitized window of at most \<^verbatim>\<open>maxLogs\<close> entries
  (so that clipping does not act). If the window differs from the buffer, the buffer is
  replaced wholesale by the window and rendered. If the window is pairwise equal to a
  non-empty buffer, the call changes nothing. If the window and the buffer are both
  empty, the buffer stays empty and is rendered. A response that is not discarded
  reaches this step with its sanitized entries.
\<close>

theorem replace_if_different:
  assumes "length entries \<le> maxLogs"
  shows "(entries \<noteq> logs s \<longrightarrow> reconcile entries s = renderLogs (s\<lparr>logs := entries\<rparr>)) \<and>
         (entries = logs s \<and> entries \<noteq> [] \<longrightarrow> reconcile entries s = s) \<and>
         (entries = logs s \<and> entries = [] \<longrightarrow> reconcile entries s = renderLogs s) \<and>
         (\<not> discarded recent \<longrightarrow>
            fetchLogs_resolved recent s = reconcile (normalizeEntries recent) s)"
proof -
  have whole: "take maxLogs entries = entries" using assms by simp
  have rc: "reconcile entries s =
     (if entries = [] \<and> logs s = [] then renderLogs s
      else if logs s = entries then s
      else renderLogs (s\<lparr>logs := entries\<rparr>))"
    by (simp only: reconcile_cases whole)
  show ?thesis
    unfolding rc fetchLogs_resolved_eq by auto
qed

text \<open>
  The hypotheses met on the empty buffer and on a buffer of one entry.
\<close>

theorem replace_if_different_witness:
  "length [\<lparr>seq = 1, line = ''a''\<rparr>] \<le> maxLogs \<and>
   [\<lparr>seq = 1, line = ''a''\<rparr>] \<noteq> logs initial \<and>
   reconcile [\<lparr>seq = 1, line = ''a''\<rparr>] initial = renderLogs (initial\<lparr>logs := [\<lparr>seq = 1, line = ''a''\<rparr>]\<rparr>) \<and>
   [\<lparr>seq = 1, line = ''a''\<rparr>] = logs (initial\<lparr>logs := [\<lparr>seq = 1, line = ''a''\<rparr>]\<rparr>) \<and>
   reconcile [\<lparr>seq = 1, line = ''a''\<rparr>] (initial\<lparr>logs := [\<lparr>seq = 1, line = ''a''\<rparr>]\<rparr>)
     = initial\<lparr>logs := [\<lparr>seq = 1, line = ''a''\<rparr>]\<rparr> \<and>
   length ([] :: entry list) \<le> maxLogs \<and> [] = logs initial \<and>
   reconcile [] initial = renderLogs initial \<and>
   \<not> discarded (JArr []) \<and>
   fetchLogs_resolved (JArr []) initial = reconcile (normalizeEntries (JArr [])) initial"
proof -
  have h1: "length [\<lparr>seq = 1, line = ''a''\<rparr>] \<le> maxLogs" by (simp add: maxLogs_def)
  have h2: "length ([] :: entry list) \<le> maxLogs" by simp
  have a: "[\<lparr>seq = 1, line = ''a''\<rparr>] \<noteq> logs initial" by (simp add: initial_def)
  have b: "[\<lparr>seq = 1, line = ''a''\<rparr>] = logs (initial\<lparr>logs := [\<lparr>seq = 1, line = ''a''\<rparr>]\<rparr>)" by simp
  have c: "[] = logs initial" by (simp add: initial_def)
  have d: "\<not> discarded (JArr [])" by (simp add: discarded_def)
  note t1 = replace_if_different [OF h1, of initial JNull]
  note t2 = replace_if_different [OF h1, of "initial\<lparr>logs := [\<lparr>seq = 1, line = ''a''\<rparr>]\<rparr>" JNull]
  note t3 = replace_if_different [OF h2, of initial "JArr []"]
  from t1 a have r1: "reconcile [\<lparr>seq = 1, line = ''a''\<rparr>] initial = renderLogs (initial\<lparr>logs := [\<lparr>seq = 1, line = ''a''\<rparr>]\<rparr>)"
    by blast
  from t2 b have r2: "reconcile [\<lparr>seq = 1, line = ''a''\<rparr>] (initial\<lparr>logs := [\<lparr>seq = 1, line = ''a''\<rparr>]\<rparr>)
     = initial\<lparr>logs := [\<lparr>seq = 1, line = ''a''\<rparr>]\<rparr>"
    by blast
  from t3 c d have r3: "reconcile [] initial = renderLogs initial"
    and r4: "fetchLogs_resolved (JArr []) initial = reconcile (normalizeEntries (JArr [])) initial"
    by blast+
  show ?thesis using h1 h2 a b c d r1 r2 r3 r4 by blast
qed

text \<open>
  Against C6 as stated: the window \<^verbatim>\<open>[]\<close> is pairwise equal to the empty buffer and the
  call still renders; and of a window of 101 entries with \<^verbatim>\<open>seq\<close> 1 to 101 the buffer
  receives the entries 1 to 100, the first hundred and not the hundred highest.
\<close>

theorem poll_window_equal_renders_and_clips_front:
  "normalizeEntries (JArr []) = logs initial \<and>
   renders (fetchLogs_resolved (JArr []) initial) = Suc (renders initial) \<and>
   normalizeEntries (JArr (map (\<lambda>i. obj_entry (of_nat i) ''x'') [1..<102]))
     = map (\<lambda>i. \<lparr>seq = of_nat i, line = ''x''\<rparr>) [1..<102] \<and>
   logs (fetchLogs_resolved (JArr (map (\<lambda>i. obj_entry (of_nat i) ''x'') [1..<102])) initial)
     = map (\<lambda>i. \<lparr>seq = of_nat i, line = ''x''\<rparr>) [1..<101]"
proof -
  have a: "normalizeEntries (JArr []) = logs initial" by (simp add: initial_def)
  have b: "renders (fetchLogs_resolved (JArr []) initial) = Suc (renders initial)"
    by (simp add: fetchLogs_resolved_eq discarded_def reconcile_cases renders_renderLogs initial_def)
  have c: "normalizeEntries (JArr (map (\<lambda>i. obj_entry (of_nat i) ''x'') [1..<102]))
     = map (\<lambda>i. \<lparr>seq = of_nat i, line = ''x''\<rparr>) [1..<102]"
    by (simp add: keep_valid_map_obj)
  have nd: "\<not> discarded (JArr (map (\<lambda>i. obj_entry (of_nat i) ''x'') [1..<102]))"
    unfolding discarded_def c by simp
  have d: "logs (fetchLogs_resolved (JArr (map (\<lambda>i. obj_entry (of_nat i) ''x'') [1..<102])) initial)
     = take 100 (map (\<lambda>i. \<lparr>seq = of_nat i, line = ''x''\<rparr>) [1..<102])"
    using nd unfolding fetchLogs_resolved_eq c by (simp add: logs_reconcile maxLogs_def)
  have e: "take 100 (map (\<lambda>i. \<lparr>seq = of_nat i, line = ''x''\<rparr>) [1..<102])
     = map (\<lambda>i. \<lparr>seq = of_nat i, line = ''x''\<rparr>) [1..<101]"
    by (simp add: take_map)
  show ?thesis using a b c d e by simp
qed

section \<open>What one event does to the buffer\<close>

lemma logs_startPing_arm: "logs (startPing_arm s) = logs s"
  by (simp add: startPing_arm_def setInterval_def clearInterval_def Let_def split: option.splits)

lemma logs_stopPing_resolved: "logs (stopPing_resolved s) = logs s"
  by (simp add: stopPing_resolved_def setRunning_def clearInterval_def Let_def split: option.splits)

lemma logs_startPing_resolved: "logs (startPing_resolved d s) = []"
  by (simp add: startPing_resolved_def fetchLogs_begin_def invoke_def setRunning_def
      logs_renderLogs Let_def)

lemma logs_startPing_begin: "logs (startPing_begin s) = logs s"
  by (simp add: startPing_begin_def invoke_def setError_def Let_def)

lemma logs_fetchLogs_settled:
  "logs (fetchLogs_settled p s) = logs s \<or>
   (\<exists>recent. p = Resolved recent \<and> logs (fetchLogs_settled p s) = take maxLogs (normalizeEntries recent))"
  by (cases p) (simp_all add: fetchLogs_resolved_eq logs_reconcile)

lemma logs_listener:
  "logs (ping_log_listener ev s) = logs s \<or> (\<exists>item. logs (ping_log_listener ev s) = logs (addLog item s))"
  by (auto simp: ping_log_listener_def Let_def)

lemma logs_resume:
  assumes "resume k r s = Some s'"
  shows "logs s' = logs s \<or> logs s' = [] \<or>
         (\<exists>recent. r = PollReply (Resolved recent) \<and> logs s' = take maxLogs (normalizeEntries recent))"
proof (cases k)
  case AwaitStart
  with assms show ?thesis
    by (auto simp: resume_def logs_startPing_resolved startPing_rejected_def setError_def
        split: reply.splits settled.splits)
next
  case AwaitPollInStart
  with assms obtain p where r: "r = PollReply p" and s': "s' = startPing_arm (fetchLogs_settled p s)"
    by (auto simp: resume_def split: reply.splits)
  show ?thesis using logs_fetchLogs_settled [of p s] by (auto simp: r s' logs_startPing_arm)
next
  case AwaitPoll
  with assms obtain p where r: "r = PollReply p" and s': "s' = fetchLogs_settled p s"
    by (auto simp: resume_def split: reply.splits)
  show ?thesis using logs_fetchLogs_settled [of p s] by (auto simp: r s')
next
  case AwaitStop
  with assms show ?thesis
    by (auto simp: resume_def logs_stopPing_resolved stopPing_rejected_def setError_def
        split: reply.splits settled.splits)
qed

lemma logs_step:
  "logs (step ev s) = logs s \<or> logs (step ev s) = [] \<or>
   (\<exists>item. logs (step ev s) = logs (addLog item s)) \<or>
   (\<exists>i recent. ev = Settle i (PollReply (Resolved recent)) \<and>
      logs (step ev s) = take maxLogs (normalizeEntries recent))"
proof (cases ev)
  case (TypeAddress t)
  then show ?thesis by simp
next
  case ClickStart
  then show ?thesis by (simp add: logs_startPing_begin)
next
  case ClickStop
  then show ?thesis by (simp add: stopPing_begin_def invoke_def setError_def)
next
  case (PingLog e)
  then show ?thesis using logs_listener [of e s] by auto
next
  case (Tick h)
  then show ?thesis by (simp add: fetchLogs_begin_def invoke_def)
next
  case (Settle i r)
  show ?thesis
  proof (cases "i < length (pending s)")
    case False
    with Settle show ?thesis by simp
  next
    case True
    let ?s1 = "s\<lparr>pending := take i (pending s) @ drop (Suc i) (pending s)\<rparr>"
    show ?thesis
    proof (cases "resume (pending s ! i) r ?s1")
      case None
      with True Settle show ?thesis by simp
    next
      case (Some s')
      then have st: "step (Settle i r) s = s'" using True by simp
      from logs_resume [OF Some]
      have "logs s' = logs s \<or> logs s' = [] \<or>
         (\<exists>recent. r = PollReply (Resolved recent) \<and> logs s' = take maxLogs (normalizeEntries recent))"
        by simp
      then show ?thesis
        unfolding Settle st by auto
    qed
  qed
qed

lemma run_Nil: "run [] s = s"
  by (simp add: run_def)

lemma run_Cons: "run (ev # evs) s = run evs (step ev s)"
  by (simp add: run_def)

lemma run_invariant:
  fixes P :: "state \<Rightarrow> bool"
  assumes "P s" and "\<And>ev t. ev \<in> set evs \<Longrightarrow> P t \<Longrightarrow> P (step ev t)"
  shows "P (run evs s)"
  using assms
proof (induction evs arbitrary: s)
  case Nil
  then show ?case by (simp add: run_Nil)
next
  case (Cons ev evs)
  have "P (step ev s)" using Cons.prems by simp
  then show ?case unfolding run_Cons
    by (rule Cons.IH) (simp add: Cons.prems(2))
qed

section \<open>Order of the buffered entries\<close>

lemma sorted_logs_addLog:
  assumes "sorted_wrt (<) (map seq (logs s))"
  shows "sorted_wrt (<) (map seq (logs (addLog item s)))"
proof (cases "as_entry item")
  case None
  with assms show ?thesis by (simp add: addLog_def)
next
  case (Some e)
  show ?thesis
  proof (cases "logs s \<noteq> [] \<and> seq (last (logs s)) \<ge> seq e")
    case True
    with Some assms show ?thesis by (simp add: addLog_def)
  next
    case False
    have below: "\<forall>x \<in> set (logs s). seq x < seq e"
    proof
      fix x assume x: "x \<in> set (logs s)"
      then have ne: "logs s \<noteq> []" by auto
      with False have lt: "seq (last (logs s)) < seq e" by auto
      have "seq x \<le> seq (last (logs s))"
      proof (cases "x = last (logs s)")
        case True then show ?thesis by simp
      next
        case False
        with x ne have "x \<in> set (butlast (logs s))"
          by (metis append_butlast_last_id insert_iff list.simps(15) rotate1.simps(2) set_rotate1)
        moreover have "sorted_wrt (<) (map seq (butlast (logs s) @ [last (logs s)]))"
          using assms ne by simp
        ultimately show ?thesis by (auto simp: sorted_wrt_append)
      qed
      with lt show "seq x < seq e" by simp
    qed
    then have pushed: "sorted_wrt (<) (map seq (logs s @ [e]))"
      using assms by (simp add: sorted_wrt_append)
    then have "sorted_wrt (<) (map seq (tl (logs s @ [e])))"
      by (cases "logs s @ [e]") simp_all
    with pushed Some False show ?thesis
      by (auto simp: addLog_def Let_def logs_renderLogs)
  qed
qed

lemma sorted_logs_step:
  assumes "sorted_wrt (<) (map seq (logs s))" and "snapshot_ordered ev"
  shows "sorted_wrt (<) (map seq (logs (step ev s)))"
proof -
  have tk: "\<And>recent. sorted_wrt (<) (map seq (normalizeEntries recent)) \<Longrightarrow>
      sorted_wrt (<) (map seq (take maxLogs (normalizeEntries recent)))"
    by (simp add: take_map [symmetric] sorted_wrt_take)
  show ?thesis
    using logs_step [of ev s] assms sorted_logs_addLog [OF assms(1)] tk by auto
qed

lemma sorted_logs_run:
  assumes "list_all snapshot_ordered evs"
  shows "sorted_wrt (<) (map seq (logs (run evs initial)))"
proof (rule run_invariant)
  show "sorted_wrt (<) (map seq (logs initial))" by (simp add: initial_def)
next
  fix ev and t :: state
  assume "ev \<in> set evs" and "sorted_wrt (<) (map seq (logs t))"
  moreover from assms \<open>ev \<in> set evs\<close> have "snapshot_ordered ev" by (simp add: list_all_iff)
  ultimately show "sorted_wrt (<) (map seq (logs (step ev t)))" by (simp add: sorted_logs_step)
qed

lemma sorted_logs_fold_addLog:
  "sorted_wrt (<) (map seq (logs s)) \<Longrightarrow> sorted_wrt (<) (map seq (logs (fold addLog items s)))"
  by (induction items arbitrary: s) (simp_all add: sorted_logs_addLog)


text \<open>
  Claim C2, as the code has it. In every state reachable from the initial one by a
  sequence of events in which each resolved poll carries sanitized entries that are
  themselves strictly increasing in \<^verbatim>\<open>seq\<close>, the buffered entries are strictly increasing
  in \<^verbatim>\<open>seq\<close>. For every sequence of \<^verbatim>\<open>addLog\<close> calls on the empty buffer, with any
  arguments, the buffered entries are strictly increasing in \<^verbatim>\<open>seq\<close>.
\<close>

theorem buffer_strictly_increasing:
  "(list_all snapshot_ordered evs \<longrightarrow> sorted_wrt (<) (map seq (logs (run evs initial)))) \<and>
   sorted_wrt (<) (map seq (logs (fold addLog items initial)))"
  using sorted_logs_run [of evs] sorted_logs_fold_addLog [of initial items]
  by (simp add: initial_def)

text \<open>
  The hypothesis met by a run that starts the probe, receives one push entry and then
  an ordered snapshot.
\<close>

theorem buffer_strictly_increasing_witness:
  "list_all snapshot_ordered
     [TypeAddress ''h'', ClickStart, Settle 0 (StartReply (Resolved ''d'')),
      PingLog (JObj [(''payload'', obj_entry 1 ''a'')]),
      Settle 0 (PollReply (Resolved (JArr [obj_entry 1 ''a'', obj_entry 2 ''b''])))] \<and>
   sorted_wrt (<) (map seq (logs (run
     [TypeAddress ''h'', ClickStart, Settle 0 (StartReply (Resolved ''d'')),
      PingLog (JObj [(''payload'', obj_entry 1 ''a'')]),
      Settle 0 (PollReply (Resolved (JArr [obj_entry 1 ''a'', obj_entry 2 ''b''])))] initial)))"
proof -
  have h: "list_all snapshot_ordered
     [TypeAddress ''h'', ClickStart, Settle 0 (StartReply (Resolved ''d'')),
      PingLog (JObj [(''payload'', obj_entry 1 ''a'')]),
      Settle 0 (PollReply (Resolved (JArr [obj_entry 1 ''a'', obj_entry 2 ''b''])))]"
    by (simp add: as_entry_obj_entry)
  show ?thesis
    using h buffer_strictly_increasing [of
     "[TypeAddress ''h'', ClickStart, Settle 0 (StartReply (Resolved ''d'')),
      PingLog (JObj [(''payload'', obj_entry 1 ''a'')]),
      Settle 0 (PollReply (Resolved (JArr [obj_entry 1 ''a'', obj_entry 2 ''b''])))]" "[]"]
    by blast
qed

text \<open>
  Against C2 as stated: the immediate poll of a start answers
  \<^verbatim>\<open>[{seq: 2, line: "b"}, {seq: 1, line: "a"}]\<close>, and the buffer holds \<^verbatim>\<open>seq\<close> 2 before 1.
\<close>

theorem unordered_snapshot_stored:
  "map seq (logs (run
     [TypeAddress ''h'', ClickStart, Settle 0 (StartReply (Resolved ''d'')),
      Settle 0 (PollReply (Resolved (JArr [obj_entry 2 ''b'', obj_entry 1 ''a''])))] initial))
   = [2, 1]"
  by (simp add: run_def startPing_begin_def trim_def is_space_def invoke_def setError_def
      initial_def resume_def startPing_resolved_def fetchLogs_begin_def setRunning_def
      logs_renderLogs logs_startPing_arm fetchLogs_resolved_eq discarded_def logs_reconcile
      as_entry_obj_entry maxLogs_def Let_def renderLogs_def)

section \<open>Capacity and eviction\<close>

lemma length_logs_addLog:
  "length (logs s) \<le> maxLogs \<Longrightarrow> length (logs (addLog item s)) \<le> maxLogs"
  by (auto simp: addLog_def Let_def logs_renderLogs split: option.splits)

lemma length_logs_step: "length (logs s) \<le> maxLogs \<Longrightarrow> length (logs (step ev s)) \<le> maxLogs"
  using logs_step [of ev s] length_logs_addLog [of s] by auto

lemma length_logs_run: "length (logs (run evs initial)) \<le> maxLogs"
  by (rule run_invariant) (simp_all add: initial_def length_logs_step)

lemma addLog_overflow:
  assumes "as_entry item = Some e" and "length (logs s) = maxLogs"
    and "seq (last (logs s)) < seq e"
  shows "logs (addLog item s) = tl (logs s) @ [e]"
proof -
  have ne: "logs s \<noteq> []" using assms(2) by (auto simp: maxLogs_def)
  then show ?thesis
    using assms by (simp add: addLog_def Let_def logs_renderLogs)
qed

lemma logs_addLog_accept:
  assumes "as_entry item = Some e" and "\<not> (logs s \<noteq> [] \<and> seq (last (logs s)) \<ge> seq e)"
  shows "logs (addLog item s)
           = (if length (logs s @ [e]) > maxLogs then tl (logs s @ [e]) else logs s @ [e])"
  using assms by (auto simp: addLog_def Let_def logs_renderLogs)

lemma fold_addLog_increasing:
  assumes "sorted_wrt (<) (map seq es)"
  shows "logs (fold addLog (map (\<lambda>e. obj_entry (seq e) (line e)) es) initial)
           = drop (length es - maxLogs) es"
  using assms
proof (induction es rule: rev_induct)
  case Nil
  then show ?case by (simp add: initial_def)
next
  case (snoc x xs)
  let ?s = "fold addLog (map (\<lambda>e. obj_entry (seq e) (line e)) xs) initial"
  let ?L = "drop (length xs - maxLogs) xs"
  from snoc.prems have sorted_xs: "sorted_wrt (<) (map seq xs)"
    and below: "\<forall>y \<in> set xs. seq y < seq x"
    by (auto simp: sorted_wrt_append)
  have L: "logs ?s = ?L" using snoc.IH [OF sorted_xs] .
  have valid: "as_entry (obj_entry (seq x) (line x)) = Some x"
    by (simp add: as_entry_obj_entry)
  have accept: "\<not> (?L \<noteq> [] \<and> seq (last ?L) \<ge> seq x)"
  proof
    assume a: "?L \<noteq> [] \<and> seq (last ?L) \<ge> seq x"
    then have "last ?L \<in> set ?L" by (intro last_in_set) blast
    then have "last ?L \<in> set xs" by (rule in_set_dropD)
    with below a show False by auto
  qed
  have accept': "\<not> (logs ?s \<noteq> [] \<and> seq (last (logs ?s)) \<ge> seq x)"
    using accept unfolding L .
  have after: "logs (addLog (obj_entry (seq x) (line x)) ?s)
      = (if length (?L @ [x]) > maxLogs then tl (?L @ [x]) else ?L @ [x])"
    using logs_addLog_accept [OF valid accept'] unfolding L .
  have "(if length (?L @ [x]) > maxLogs then tl (?L @ [x]) else ?L @ [x])
      = drop (length (xs @ [x]) - maxLogs) (xs @ [x])"
  proof (cases "length xs \<ge> maxLogs")
    case True
    have pos: "0 < maxLogs" by (simp add: maxLogs_def)
    have ne: "?L \<noteq> []" using True pos by simp
    have len: "length (?L @ [x]) > maxLogs" using True pos by simp
    have idx: "length (xs @ [x]) - maxLogs = Suc (length xs - maxLogs)"
      using True by (simp add: Suc_diff_le)
    have short: "Suc (length xs - maxLogs) \<le> length xs" using True pos by arith
    have "tl (?L @ [x]) = tl ?L @ [x]" using ne by simp
    also have "tl ?L = drop (Suc (length xs - maxLogs)) xs" by (simp add: drop_Suc tl_drop)
    also have "drop (Suc (length xs - maxLogs)) xs @ [x] = drop (Suc (length xs - maxLogs)) (xs @ [x])"
      using short by simp
    finally show ?thesis using len by (simp only: idx if_True)
  next
    case False
    then show ?thesis by simp
  qed
  with after show ?case by simp
qed

lemma hundred_and_one_appends:
  "logs (fold addLog (map (\<lambda>i. obj_entry (of_nat i) (lbl i)) [1..<102]) initial)
     = map (\<lambda>i. \<lparr>seq = of_nat i, line = lbl i\<rparr>) [2..<102]"
proof -
  let ?es = "map (\<lambda>i. \<lparr>seq = of_nat i, line = lbl i\<rparr>) [1..<102]"
  have items: "map (\<lambda>i. obj_entry (of_nat i) (lbl i)) [1..<102]
      = map (\<lambda>e. obj_entry (seq e) (line e)) ?es"
    by (simp add: comp_def)
  have "sorted_wrt (<) (map seq ?es)"
    by (simp add: comp_def sorted_wrt_map)
  from fold_addLog_increasing [OF this]
  have "logs (fold addLog (map (\<lambda>i. obj_entry (of_nat i) (lbl i)) [1..<102]) initial)
      = drop (length ?es - maxLogs) ?es"
    unfolding items .
  also have "length ?es - maxLogs = 1"
    by (simp add: maxLogs_def)
  also have "drop 1 ?es = map (\<lambda>i. \<lparr>seq = of_nat i, line = lbl i\<rparr>) [1 + 1..<102]"
    by (simp only: drop_map drop_upt)
  also have "[1 + 1..<102] = [2..<(102::nat)]"
    by (simp only: one_add_one)
  finally show ?thesis .
qed

lemma evicted_is_lowest:
  assumes "sorted_wrt (<) (map seq (logs s))" and "as_entry item = Some e"
    and "length (logs s) = maxLogs" and "seq (last (logs s)) < seq e"
  shows "\<forall>x \<in> set (logs (addLog item s)). seq (hd (logs s)) < seq x"
proof -
  obtain a rest where L: "logs s = a # rest" and rest: "rest \<noteq> []"
    using assms(3) by (cases "logs s"; cases "tl (logs s)") (auto simp: maxLogs_def)
  have after: "logs (addLog item s) = rest @ [e]"
    using addLog_overflow [OF assms(2-4)] L by simp
  have in_rest: "\<forall>x \<in> set rest. seq a < seq x" using assms(1) L by auto
  moreover have "last (logs s) \<in> set rest" using L rest by simp
  ultimately have "seq a < seq e" using assms(4) by fastforce
  with in_rest show ?thesis by (simp add: after L)
qed

section \<open>Starting and stopping the probe\<close>

lemma settle_last:
  assumes "length (pending t) = n"
  shows "step (Settle n r) (t\<lparr>pending := pending t @ [k]\<rparr>)
     = (case resume k r t of Some s' \<Rightarrow> s' | None \<Rightarrow> t\<lparr>pending := pending t @ [k]\<rparr>)"
  using assms by auto

lemma startPing_blank:
  assumes "trim (addressInput s) = []"
  shows "startPing sr p s = s\<lparr>errorText := AddressRequired\<rparr>"
  using assms
  by (cases sr) (simp_all add: startPing_def run_def startPing_begin_def setError_def Let_def)

lemma startPing_begin_call:
  assumes "trim (addressInput s) \<noteq> []"
  shows "startPing_begin s
    = (s\<lparr>errorText := Text [], calls := calls s @ [StartPing (trim (addressInput s))]\<rparr>)
        \<lparr>pending := pending s @ [AwaitStart]\<rparr>"
  using assms by (simp add: startPing_begin_def invoke_def setError_def Let_def)

lemma startPing_rejected_run:
  assumes "trim (addressInput s) \<noteq> []"
  shows "startPing (Rejected err) p s
    = s\<lparr>errorText := Text err, calls := calls s @ [StartPing (trim (addressInput s))]\<rparr>"
proof -
  let ?t = "s\<lparr>errorText := Text [], calls := calls s @ [StartPing (trim (addressInput s))]\<rparr>"
  have e1: "step ClickStart s = ?t\<lparr>pending := pending ?t @ [AwaitStart]\<rparr>"
    by (simp add: startPing_begin_call [OF assms])
  have e2: "step (Settle (length (pending s)) (StartReply (Rejected err)))
        (?t\<lparr>pending := pending ?t @ [AwaitStart]\<rparr>) = startPing_rejected err ?t"
    by (subst settle_last) (simp_all add: resume_def)
  have "startPing (Rejected err) p s
      = step (Settle (length (pending s)) (StartReply (Rejected err))) (step ClickStart s)"
    by (simp add: startPing_def run_def Let_def)
  also have "\<dots> = startPing_rejected err ?t"
    by (simp only: e1 e2)
  finally show ?thesis by (simp add: startPing_rejected_def setError_def)
qed

lemma stopPing_rejected_run:
  "stopPing (Rejected err) s = s\<lparr>errorText := Text err, calls := calls s @ [StopPing]\<rparr>"
proof -
  let ?t = "s\<lparr>errorText := Text [], calls := calls s @ [StopPing]\<rparr>"
  have e1: "step ClickStop s = ?t\<lparr>pending := pending ?t @ [AwaitStop]\<rparr>"
    by (simp add: stopPing_begin_def invoke_def setError_def)
  have e2: "step (Settle (length (pending s)) (StopReply (Rejected err)))
        (?t\<lparr>pending := pending ?t @ [AwaitStop]\<rparr>) = stopPing_rejected err ?t"
    by (subst settle_last) (simp_all add: resume_def)
  have "stopPing (Rejected err) s
      = step (Settle (length (pending s)) (StopReply (Rejected err))) (step ClickStop s)"
    by (simp add: stopPing_def run_def)
  also have "\<dots> = stopPing_rejected err ?t"
    by (simp only: e1 e2)
  finally show ?thesis by (simp add: stopPing_rejected_def setError_def)
qed

lemma stopPing_resolved_run:
  "stopPing (Resolved u) s
     = stopPing_resolved (s\<lparr>errorText := Text [], calls := calls s @ [StopPing]\<rparr>)"
proof -
  let ?t = "s\<lparr>errorText := Text [], calls := calls s @ [StopPing]\<rparr>"
  have e1: "step ClickStop s = ?t\<lparr>pending := pending ?t @ [AwaitStop]\<rparr>"
    by (simp add: stopPing_begin_def invoke_def setError_def)
  have e2: "step (Settle (length (pending s)) (StopReply (Resolved u)))
        (?t\<lparr>pending := pending ?t @ [AwaitStop]\<rparr>) = stopPing_resolved ?t"
    by (subst settle_last) (simp_all add: resume_def)
  have "stopPing (Resolved u) s
      = step (Settle (length (pending s)) (StopReply (Resolved u))) (step ClickStop s)"
    by (simp add: stopPing_def run_def)
  also have "\<dots> = stopPing_resolved ?t"
    by (simp only: e1 e2)
  finally show ?thesis .
qed

lemma startPing_resolved_run:
  assumes "trim (addressInput s) \<noteq> []"
  shows "startPing (Resolved d) p s
    = startPing_arm (fetchLogs_settled p
        ((renderLogs (s\<lparr>logs := [], errorText := Text [], logPath := d\<rparr>))
           \<lparr>running := True, autoScroll := True,
            calls := calls s @ [StartPing (trim (addressInput s)), GetRecentLogs]\<rparr>))"
proof -
  let ?t = "s\<lparr>errorText := Text [], calls := calls s @ [StartPing (trim (addressInput s))]\<rparr>"
  let ?u = "(renderLogs (s\<lparr>logs := [], errorText := Text [], logPath := d\<rparr>))
           \<lparr>running := True, autoScroll := True,
            calls := calls s @ [StartPing (trim (addressInput s)), GetRecentLogs]\<rparr>"
  have e1: "step ClickStart s = ?t\<lparr>pending := pending ?t @ [AwaitStart]\<rparr>"
    by (simp add: startPing_begin_call [OF assms])
  have e2: "step (Settle (length (pending s)) (StartReply (Resolved d)))
        (?t\<lparr>pending := pending ?t @ [AwaitStart]\<rparr>) = startPing_resolved d ?t"
    by (subst settle_last) (simp_all add: resume_def)
  have e3: "startPing_resolved d ?t = ?u\<lparr>pending := pending ?u @ [AwaitPollInStart]\<rparr>"
    by (simp add: startPing_resolved_def fetchLogs_begin_def invoke_def setRunning_def
        renderLogs_def Let_def)
  have e4: "step (Settle (length (pending s)) (PollReply p))
        (?u\<lparr>pending := pending ?u @ [AwaitPollInStart]\<rparr>) = startPing_arm (fetchLogs_settled p ?u)"
    by (subst settle_last) (simp_all add: resume_def renderLogs_def Let_def)
  have "startPing (Resolved d) p s
      = step (Settle (length (pending s)) (PollReply p))
          (step (Settle (length (pending s)) (StartReply (Resolved d))) (step ClickStart s))"
    by (simp add: startPing_def run_def Let_def)
  also have "\<dots> = startPing_arm (fetchLogs_settled p ?u)"
    by (simp only: e1 e2 e3 e4)
  finally show ?thesis .
qed


section \<open>Ownership of the poll timer\<close>

lemma fetchLogs_settled_frame:
  "fetchLogs_settled p s = s\<lparr>logs := logs (fetchLogs_settled p s),
      renders := renders (fetchLogs_settled p s), shown := shown (fetchLogs_settled p s),
      logEmptyHidden := logEmptyHidden (fetchLogs_settled p s)\<rparr>"
  by (cases p) (simp_all add: fetchLogs_resolved_eq reconcile_cases renderLogs_def Let_def)

lemma fetchLogs_settled_keeps:
  "running (fetchLogs_settled p s) = running s"
  "autoScroll (fetchLogs_settled p s) = autoScroll s"
  "pollTimer (fetchLogs_settled p s) = pollTimer s"
  "intervals (fetchLogs_settled p s) = intervals s"
  "nextHandle (fetchLogs_settled p s) = nextHandle s"
  "calls (fetchLogs_settled p s) = calls s"
  "pending (fetchLogs_settled p s) = pending s"
  "errorText (fetchLogs_settled p s) = errorText s"
  "logPath (fetchLogs_settled p s) = logPath s"
  by (subst fetchLogs_settled_frame, simp)+

lemma logs_fetchLogs_settled_eq:
  "logs (fetchLogs_settled p s) =
     (case p of
        Rejected err \<Rightarrow> logs s
      | Resolved recent \<Rightarrow>
          if discarded recent then logs s else take maxLogs (normalizeEntries recent))"
  by (cases p) (simp_all add: fetchLogs_resolved_eq logs_reconcile)

lemma addLog_frame:
  "addLog item s = s\<lparr>logs := logs (addLog item s),
      renders := renders (addLog item s), shown := shown (addLog item s),
      logEmptyHidden := logEmptyHidden (addLog item s)\<rparr>"
  by (simp add: addLog_def renderLogs_def Let_def split: option.splits)

lemma listener_frame:
  "ping_log_listener ev s = s\<lparr>logs := logs (ping_log_listener ev s),
      renders := renders (ping_log_listener ev s), shown := shown (ping_log_listener ev s),
      logEmptyHidden := logEmptyHidden (ping_log_listener ev s)\<rparr>"
proof (cases "ping_log_listener ev s = s")
  case True
  then show ?thesis by simp
next
  case False
  then obtain item where "ping_log_listener ev s = addLog item s"
    by (auto simp: ping_log_listener_def Let_def split: if_splits)
  then show ?thesis using addLog_frame [of item s] by simp
qed

lemma listener_keeps_timers:
  "pollTimer (ping_log_listener ev s) = pollTimer s"
  "intervals (ping_log_listener ev s) = intervals s"
  by (subst listener_frame, simp)+

lemma one_timer_arm: "one_timer s \<Longrightarrow> one_timer (startPing_arm s)"
  by (auto simp: one_timer_def startPing_arm_def setInterval_def clearInterval_def Let_def
      split: option.splits)

lemma one_timer_stop: "one_timer s \<Longrightarrow> one_timer (stopPing_resolved s)"
  by (auto simp: one_timer_def stopPing_resolved_def setRunning_def clearInterval_def Let_def
      split: option.splits)

lemma one_timer_resume:
  assumes "one_timer s" and "resume k r s = Some s'"
  shows "one_timer s'"
proof (cases k)
  case AwaitStart
  with assms show ?thesis
    by (auto simp: resume_def one_timer_def startPing_resolved_def fetchLogs_begin_def invoke_def
        setRunning_def renderLogs_def Let_def startPing_rejected_def setError_def
        split: reply.splits settled.splits)
next
  case AwaitPollInStart
  with assms obtain p where s': "s' = startPing_arm (fetchLogs_settled p s)"
    by (auto simp: resume_def split: reply.splits)
  have "one_timer (fetchLogs_settled p s)"
    using assms(1) by (simp add: one_timer_def fetchLogs_settled_keeps)
  then show ?thesis unfolding s' by (rule one_timer_arm)
next
  case AwaitPoll
  with assms obtain p where s': "s' = fetchLogs_settled p s"
    by (auto simp: resume_def split: reply.splits)
  show ?thesis using assms(1) unfolding s' by (simp add: one_timer_def fetchLogs_settled_keeps)
next
  case AwaitStop
  have "one_timer (stopPing_rejected err s)" for err
    using assms(1) by (simp add: one_timer_def stopPing_rejected_def setError_def)
  with AwaitStop assms show ?thesis
    by (auto simp: resume_def one_timer_stop split: reply.splits settled.splits)
qed

lemma one_timer_step:
  assumes "one_timer s"
  shows "one_timer (step ev s)"
proof (cases ev)
  case (TypeAddress t)
  with assms show ?thesis by (simp add: one_timer_def)
next
  case ClickStart
  with assms show ?thesis
    by (simp add: one_timer_def startPing_begin_def invoke_def setError_def Let_def)
next
  case ClickStop
  with assms show ?thesis
    by (simp add: one_timer_def stopPing_begin_def invoke_def setError_def)
next
  case (PingLog e)
  with assms show ?thesis by (simp add: one_timer_def listener_keeps_timers)
next
  case (Tick h)
  with assms show ?thesis by (simp add: one_timer_def fetchLogs_begin_def invoke_def)
next
  case (Settle i r)
  show ?thesis
  proof (cases "i < length (pending s)")
    case False
    with Settle assms show ?thesis by simp
  next
    case True
    let ?s1 = "s\<lparr>pending := take i (pending s) @ drop (Suc i) (pending s)\<rparr>"
    have inv1: "one_timer ?s1" using assms by (simp add: one_timer_def)
    show ?thesis
    proof (cases "resume (pending s ! i) r ?s1")
      case None
      with True Settle assms show ?thesis by simp
    next
      case (Some s')
      then have "step (Settle i r) s = s'" using True by simp
      with one_timer_resume [OF inv1 Some] Settle show ?thesis by simp
    qed
  qed
qed

lemma one_timer_run: "one_timer (run evs initial)"
proof (rule run_invariant)
  show "one_timer initial" by (simp add: one_timer_def initial_def)
next
  fix ev and t :: state
  assume "one_timer t"
  then show "one_timer (step ev t)" by (rule one_timer_step)
qed

lemma settle_start_resolved:
  assumes "i < length (pending s)" and "pending s ! i = AwaitStart"
  shows "step (Settle i (StartReply (Resolved d))) s
    = startPing_resolved d (s\<lparr>pending := take i (pending s) @ drop (Suc i) (pending s)\<rparr>)"
  using assms by (simp add: resume_def)

lemma settle_poll_in_start:
  assumes "j < length (pending s)" and "pending s ! j = AwaitPollInStart"
  shows "step (Settle j (PollReply p)) s
    = startPing_arm (fetchLogs_settled p (s\<lparr>pending := take j (pending s) @ drop (Suc j) (pending s)\<rparr>))"
  using assms by (simp add: resume_def)

lemma startPing_resolved_eq:
  "startPing_resolved d s
    = (renderLogs (s\<lparr>logs := [], logPath := d\<rparr>))
        \<lparr>running := True, autoScroll := True, calls := calls s @ [GetRecentLogs],
         pending := pending s @ [AwaitPollInStart]\<rparr>"
  by (simp add: startPing_resolved_def fetchLogs_begin_def invoke_def setRunning_def
      renderLogs_def Let_def)

lemma startPing_arm_eq:
  "startPing_arm t = t\<lparr>intervals :=
        (case pollTimer t of None \<Rightarrow> intervals t
         | Some h \<Rightarrow> filter (\<lambda>(k, q). k \<noteq> h) (intervals t)) @ [(nextHandle t, 1000)],
      nextHandle := Suc (nextHandle t), pollTimer := Some (nextHandle t)\<rparr>"
  by (simp add: startPing_arm_def setInterval_def clearInterval_def Let_def split: option.splits)

lemma ticks_calls:
  assumes "h \<in> fst ` set (intervals t)"
  shows "calls (run (replicate n (Tick h)) t) = calls t @ replicate n GetRecentLogs"
  using assms
proof (induction n arbitrary: t)
  case 0
  then show ?case by (simp add: run_Nil)
next
  case (Suc n)
  have st: "step (Tick h) t = fetchLogs_begin AwaitPoll t"
    using Suc.prems by simp
  have still: "h \<in> fst ` set (intervals (step (Tick h) t))"
    using Suc.prems unfolding st by (simp add: fetchLogs_begin_def invoke_def)
  have "run (replicate (Suc n) (Tick h)) t = run (replicate n (Tick h)) (step (Tick h) t)"
    by (simp add: run_Cons)
  also have "calls (run (replicate n (Tick h)) (step (Tick h) t))
      = calls (step (Tick h) t) @ replicate n GetRecentLogs"
    by (rule Suc.IH [OF still])
  also have "calls (step (Tick h) t) = calls t @ [GetRecentLogs]"
    unfolding st by (simp add: fetchLogs_begin_def invoke_def)
  finally show ?case by (simp add: replicate_append_same)
qed

lemma armed_handle_active:
  "nextHandle t \<in> fst ` set (intervals (startPing_arm t))"
  by (simp add: startPing_arm_eq)

text \<open>
  Claim C7. The steps of a start are separate events, and each is stated for whatever
  state it finds, so for any interleaving with other events.
  \<^item> The click: with an address that is empty after trimming, only the inline error is
    set to the address prompt; no command is invoked and nothing else changes.
    Otherwise the error is cleared and the start command is invoked.
  \<^item> The start command resolves with \<open>d\<close>: the buffer is emptied and rendered, auto-follow
    is on, the probe is marked running, and exactly one poll is invoked; the timers
    are not touched yet.
  \<^item> That immediate poll settles: the interval held by \<^verbatim>\<open>pollTimer\<close> is cleared and a fresh
    one of 1000 ms is armed and stored in \<^verbatim>\<open>pollTimer\<close>; if the old state had no stale
    timer, the new interval is the only active one. The running flag is left as found.
    The new interval is recurring: \<open>n\<close> ticks of it invoke \<open>n\<close> polls.
  \<^item> A whole call with nothing interleaved ends running, following, with the buffer the
    immediate poll gives on the emptied buffer, the start command and one poll invoked,
    and the fresh interval armed and polling at each tick.
  \<^item> In every state reachable from the initial one the active intervals are exactly the
    one held by \<^verbatim>\<open>pollTimer\<close>, if any: no start leaves a stale timer.
\<close>

theorem start_contract:
  "(trim (addressInput s) = [] \<longrightarrow>
      step ClickStart s = s\<lparr>errorText := AddressRequired\<rparr> \<and>
      startPing sr p s = s\<lparr>errorText := AddressRequired\<rparr>) \<and>
   (trim (addressInput s) \<noteq> [] \<longrightarrow>
      step ClickStart s
        = s\<lparr>errorText := Text [], calls := calls s @ [StartPing (trim (addressInput s))],
            pending := pending s @ [AwaitStart]\<rparr>) \<and>
   (i < length (pending s) \<and> pending s ! i = AwaitStart \<longrightarrow>
      logs (step (Settle i (StartReply (Resolved d))) s) = [] \<and>
      autoScroll (step (Settle i (StartReply (Resolved d))) s) \<and>
      running (step (Settle i (StartReply (Resolved d))) s) \<and>
      renders (step (Settle i (StartReply (Resolved d))) s) = Suc (renders s) \<and>
      logPath (step (Settle i (StartReply (Resolved d))) s) = d \<and>
      calls (step (Settle i (StartReply (Resolved d))) s) = calls s @ [GetRecentLogs] \<and>
      pending (step (Settle i (StartReply (Resolved d))) s)
        = take i (pending s) @ drop (Suc i) (pending s) @ [AwaitPollInStart] \<and>
      pollTimer (step (Settle i (StartReply (Resolved d))) s) = pollTimer s \<and>
      intervals (step (Settle i (StartReply (Resolved d))) s) = intervals s) \<and>
   (j < length (pending s) \<and> pending s ! j = AwaitPollInStart \<longrightarrow>
      pollTimer (step (Settle j (PollReply p)) s) = Some (nextHandle s) \<and>
      intervals (step (Settle j (PollReply p)) s)
        = (case pollTimer s of
             None \<Rightarrow> intervals s
           | Some h \<Rightarrow> filter (\<lambda>(k, q). k \<noteq> h) (intervals s)) @ [(nextHandle s, 1000)] \<and>
      (one_timer s \<longrightarrow> intervals (step (Settle j (PollReply p)) s) = [(nextHandle s, 1000)]) \<and>
      logs (step (Settle j (PollReply p)) s) =
        (case p of
           Rejected err \<Rightarrow> logs s
         | Resolved recent \<Rightarrow>
             if discarded recent then logs s else take maxLogs (normalizeEntries recent)) \<and>
      running (step (Settle j (PollReply p)) s) = running s \<and>
      calls (step (Settle j (PollReply p)) s) = calls s \<and>
      pending (step (Settle j (PollReply p)) s) = take j (pending s) @ drop (Suc j) (pending s) \<and>
      calls (run (replicate n (Tick (nextHandle s))) (step (Settle j (PollReply p)) s))
        = calls s @ replicate n GetRecentLogs) \<and>
   (trim (addressInput s) \<noteq> [] \<longrightarrow>
      running (startPing (Resolved d) p s) \<and>
      autoScroll (startPing (Resolved d) p s) \<and>
      logs (startPing (Resolved d) p s) =
        (case p of
           Rejected err \<Rightarrow> []
         | Resolved recent \<Rightarrow>
             if discarded recent then [] else take maxLogs (normalizeEntries recent)) \<and>
      calls (startPing (Resolved d) p s)
        = calls s @ [StartPing (trim (addressInput s)), GetRecentLogs] \<and>
      pollTimer (startPing (Resolved d) p s) = Some (nextHandle s) \<and>
      intervals (startPing (Resolved d) p s)
        = (case pollTimer s of
             None \<Rightarrow> intervals s
           | Some h \<Rightarrow> filter (\<lambda>(k, q). k \<noteq> h) (intervals s)) @ [(nextHandle s, 1000)] \<and>
      (one_timer s \<longrightarrow> intervals (startPing (Resolved d) p s) = [(nextHandle s, 1000)]) \<and>
      errorText (startPing (Resolved d) p s) = Text [] \<and>
      logPath (startPing (Resolved d) p s) = d \<and>
      pending (startPing (Resolved d) p s) = pending s \<and>
      calls (run (replicate n (Tick (nextHandle s))) (startPing (Resolved d) p s))
        = calls s @ [StartPing (trim (addressInput s)), GetRecentLogs] @ replicate n GetRecentLogs) \<and>
   one_timer (run evs initial)"
proof (intro conjI impI)
  assume blank: "trim (addressInput s) = []"
  then show "step ClickStart s = s\<lparr>errorText := AddressRequired\<rparr>"
    by (simp add: startPing_begin_def setError_def)
  from blank show "startPing sr p s = s\<lparr>errorText := AddressRequired\<rparr>" by (rule startPing_blank)
next
  assume "trim (addressInput s) \<noteq> []"
  then show "step ClickStart s
        = s\<lparr>errorText := Text [], calls := calls s @ [StartPing (trim (addressInput s))],
            pending := pending s @ [AwaitStart]\<rparr>"
    by (simp add: startPing_begin_call)
next
  show "one_timer (run evs initial)" by (rule one_timer_run)
next
  assume a: "i < length (pending s) \<and> pending s ! i = AwaitStart"
  let ?A = "step (Settle i (StartReply (Resolved d))) s"
  have eq: "?A = (renderLogs (s\<lparr>pending := take i (pending s) @ drop (Suc i) (pending s),
                 logs := [], logPath := d\<rparr>))
        \<lparr>running := True, autoScroll := True, calls := calls s @ [GetRecentLogs],
         pending := take i (pending s) @ drop (Suc i) (pending s) @ [AwaitPollInStart]\<rparr>"
    unfolding settle_start_resolved [OF conjunct1 [OF a] conjunct2 [OF a]] startPing_resolved_eq
    by simp
  show "logs ?A = []" unfolding eq by (simp add: logs_renderLogs)
  show "autoScroll ?A" unfolding eq by simp
  show "running ?A" unfolding eq by simp
  show "renders ?A = Suc (renders s)" unfolding eq by (simp add: renders_renderLogs)
  show "logPath ?A = d" unfolding eq by (simp add: renderLogs_def Let_def)
  show "calls ?A = calls s @ [GetRecentLogs]" unfolding eq by simp
  show "pending ?A = take i (pending s) @ drop (Suc i) (pending s) @ [AwaitPollInStart]"
    unfolding eq by simp
  show "pollTimer ?A = pollTimer s" unfolding eq by (simp add: renderLogs_def Let_def)
  show "intervals ?A = intervals s" unfolding eq by (simp add: renderLogs_def Let_def)
next
  assume a: "j < length (pending s) \<and> pending s ! j = AwaitPollInStart"
  let ?B = "step (Settle j (PollReply p)) s"
  let ?s1 = "s\<lparr>pending := take j (pending s) @ drop (Suc j) (pending s)\<rparr>"
  let ?f = "fetchLogs_settled p ?s1"
  have B: "?B = startPing_arm ?f"
    by (rule settle_poll_in_start [OF conjunct1 [OF a] conjunct2 [OF a]])
  have f: "pollTimer ?f = pollTimer s" "intervals ?f = intervals s" "nextHandle ?f = nextHandle s"
    "running ?f = running s" "calls ?f = calls s"
    "pending ?f = take j (pending s) @ drop (Suc j) (pending s)"
    by (simp_all add: fetchLogs_settled_keeps)
  have arm: "startPing_arm ?f = ?f\<lparr>intervals :=
        (case pollTimer s of None \<Rightarrow> intervals s
         | Some h \<Rightarrow> filter (\<lambda>(k, q). k \<noteq> h) (intervals s)) @ [(nextHandle s, 1000)],
      nextHandle := Suc (nextHandle s), pollTimer := Some (nextHandle s)\<rparr>"
    using f by (auto simp: startPing_arm_eq split: option.splits)
  show "pollTimer ?B = Some (nextHandle s)" unfolding B arm by simp
  show iv: "intervals ?B
        = (case pollTimer s of
             None \<Rightarrow> intervals s
           | Some h \<Rightarrow> filter (\<lambda>(k, q). k \<noteq> h) (intervals s)) @ [(nextHandle s, 1000)]"
    unfolding B arm by simp
  show "logs ?B =
        (case p of
           Rejected err \<Rightarrow> logs s
         | Resolved recent \<Rightarrow>
             if discarded recent then logs s else take maxLogs (normalizeEntries recent))"
    unfolding B arm by (simp add: logs_fetchLogs_settled_eq split: settled.splits)
  show "running ?B = running s" unfolding B arm by (simp add: f)
  show cB: "calls ?B = calls s" unfolding B arm by (simp add: f)
  show "pending ?B = take j (pending s) @ drop (Suc j) (pending s)" unfolding B arm by (simp add: f)
  have "nextHandle s \<in> fst ` set (intervals ?B)" unfolding iv by simp
  from ticks_calls [OF this, of n]
  show "calls (run (replicate n (Tick (nextHandle s))) ?B) = calls s @ replicate n GetRecentLogs"
    unfolding cB .
  assume "one_timer s"
  then show "intervals ?B = [(nextHandle s, 1000)]"
    unfolding iv by (auto simp: one_timer_def split: option.splits)
next
  assume ok: "trim (addressInput s) \<noteq> []"
  let ?u = "(renderLogs (s\<lparr>logs := [], errorText := Text [], logPath := d\<rparr>))
           \<lparr>running := True, autoScroll := True,
            calls := calls s @ [StartPing (trim (addressInput s)), GetRecentLogs]\<rparr>"
  let ?f = "fetchLogs_settled p ?u"
  let ?R = "startPing (Resolved d) p s"
  have eq: "?R = startPing_arm ?f"
    by (rule startPing_resolved_run [OF ok])
  have u: "logs ?u = []" "pollTimer ?u = pollTimer s" "intervals ?u = intervals s"
    "nextHandle ?u = nextHandle s" "pending ?u = pending s" "logPath ?u = d"
    "errorText ?u = Text []"
    by (simp_all add: renderLogs_def Let_def)
  have f: "pollTimer ?f = pollTimer s" "intervals ?f = intervals s" "nextHandle ?f = nextHandle s"
    by (simp_all add: fetchLogs_settled_keeps u)
  have arm: "startPing_arm ?f = ?f\<lparr>intervals :=
        (case pollTimer s of None \<Rightarrow> intervals s
         | Some h \<Rightarrow> filter (\<lambda>(k, q). k \<noteq> h) (intervals s)) @ [(nextHandle s, 1000)],
      nextHandle := Suc (nextHandle s), pollTimer := Some (nextHandle s)\<rparr>"
    using f by (auto simp: startPing_arm_eq split: option.splits)
  show "running ?R" unfolding eq arm by (simp add: fetchLogs_settled_keeps)
  show "autoScroll ?R" unfolding eq arm by (simp add: fetchLogs_settled_keeps)
  show "logs ?R =
        (case p of
           Rejected err \<Rightarrow> []
         | Resolved recent \<Rightarrow>
             if discarded recent then [] else take maxLogs (normalizeEntries recent))"
    unfolding eq arm by (simp add: logs_fetchLogs_settled_eq u(1) split: settled.splits)
  show cR: "calls ?R = calls s @ [StartPing (trim (addressInput s)), GetRecentLogs]"
    unfolding eq arm by (simp add: fetchLogs_settled_keeps)
  show "pollTimer ?R = Some (nextHandle s)"
    unfolding eq arm by (simp add: fetchLogs_settled_keeps u)
  show iv: "intervals ?R
        = (case pollTimer s of
             None \<Rightarrow> intervals s
           | Some h \<Rightarrow> filter (\<lambda>(k, q). k \<noteq> h) (intervals s)) @ [(nextHandle s, 1000)]"
    unfolding eq arm by (simp add: fetchLogs_settled_keeps u)
  show "errorText ?R = Text []"
    unfolding eq arm by (simp add: fetchLogs_settled_keeps u)
  show "logPath ?R = d"
    unfolding eq arm by (simp add: fetchLogs_settled_keeps u)
  show "pending ?R = pending s"
    unfolding eq arm by (simp add: fetchLogs_settled_keeps u)
  have "nextHandle s \<in> fst ` set (intervals ?R)" unfolding iv by simp
  from ticks_calls [OF this, of n]
  show "calls (run (replicate n (Tick (nextHandle s))) ?R)
        = calls s @ [StartPing (trim (addressInput s)), GetRecentLogs] @ replicate n GetRecentLogs"
    unfolding cR by simp
  assume "one_timer s"
  then show "intervals ?R = [(nextHandle s, 1000)]"
    unfolding iv by (auto simp: one_timer_def split: option.splits)
qed


text \<open>
  The hypotheses met along a start with the address \<^verbatim>\<open>" h "\<close> on the initial state, and by
  an address of two spaces.
\<close>

theorem start_contract_witness:
  "trim (addressInput (initial\<lparr>addressInput := ''  ''\<rparr>)) = [] \<and>
   step ClickStart (initial\<lparr>addressInput := ''  ''\<rparr>)
     = (initial\<lparr>addressInput := ''  ''\<rparr>)\<lparr>errorText := AddressRequired\<rparr> \<and>
   trim (addressInput (initial\<lparr>addressInput := '' h ''\<rparr>)) \<noteq> [] \<and>
   pending (step ClickStart (initial\<lparr>addressInput := '' h ''\<rparr>)) = [AwaitStart] \<and>
   0 < length (pending (step ClickStart (initial\<lparr>addressInput := '' h ''\<rparr>))) \<and>
   pending (step ClickStart (initial\<lparr>addressInput := '' h ''\<rparr>)) ! 0 = AwaitStart \<and>
   running (step (Settle 0 (StartReply (Resolved ''d''))) (step ClickStart (initial\<lparr>addressInput := '' h ''\<rparr>))) \<and>
   logs (step (Settle 0 (StartReply (Resolved ''d''))) (step ClickStart (initial\<lparr>addressInput := '' h ''\<rparr>))) = [] \<and>
   0 < length (pending (step (Settle 0 (StartReply (Resolved ''d''))) (step ClickStart (initial\<lparr>addressInput := '' h ''\<rparr>)))) \<and>
   pending (step (Settle 0 (StartReply (Resolved ''d''))) (step ClickStart (initial\<lparr>addressInput := '' h ''\<rparr>))) ! 0
     = AwaitPollInStart \<and>
   one_timer (step (Settle 0 (StartReply (Resolved ''d''))) (step ClickStart (initial\<lparr>addressInput := '' h ''\<rparr>))) \<and>
   intervals (step (Settle 0 (PollReply (Resolved (JArr []))))
       (step (Settle 0 (StartReply (Resolved ''d''))) (step ClickStart (initial\<lparr>addressInput := '' h ''\<rparr>))))
     = [(nextHandle (step (Settle 0 (StartReply (Resolved ''d''))) (step ClickStart (initial\<lparr>addressInput := '' h ''\<rparr>))), 1000)] \<and>
   calls (run (replicate 2 (Tick (nextHandle (step (Settle 0 (StartReply (Resolved ''d''))) (step ClickStart (initial\<lparr>addressInput := '' h ''\<rparr>))))))
       (step (Settle 0 (PollReply (Resolved (JArr []))))
         (step (Settle 0 (StartReply (Resolved ''d''))) (step ClickStart (initial\<lparr>addressInput := '' h ''\<rparr>)))))
     = calls (step (Settle 0 (StartReply (Resolved ''d''))) (step ClickStart (initial\<lparr>addressInput := '' h ''\<rparr>)))
         @ replicate 2 GetRecentLogs \<and>
   one_timer (initial\<lparr>addressInput := '' h ''\<rparr>) \<and>
   running (startPing (Resolved ''d'') (Resolved (JArr [])) (initial\<lparr>addressInput := '' h ''\<rparr>)) \<and>
   intervals (startPing (Resolved ''d'') (Resolved (JArr [])) (initial\<lparr>addressInput := '' h ''\<rparr>))
     = [(nextHandle (initial\<lparr>addressInput := '' h ''\<rparr>), 1000)]"
proof -
  let ?s0 = "initial\<lparr>addressInput := ''  ''\<rparr>"
  let ?sh = "initial\<lparr>addressInput := '' h ''\<rparr>"
  let ?s1 = "step ClickStart ?sh"
  let ?s2 = "step (Settle 0 (StartReply (Resolved ''d''))) ?s1"
  let ?p = "Resolved (JArr []) :: jsval settled"
  have a: "trim (addressInput ?s0) = []"
    by (simp add: trim_def is_space_def)
  have b: "trim (addressInput ?sh) \<noteq> []"
    by (simp add: trim_def is_space_def)
  have c: "one_timer ?sh"
    by (simp add: one_timer_def initial_def)
  note t0 = start_contract [of ?s0 "Resolved ''d''" ?p 0 "''d''" 0 2 "[]"]
  note th = start_contract [of ?sh "Resolved ''d''" ?p 0 "''d''" 0 2 "[]"]
  note t1 = start_contract [of ?s1 "Resolved ''d''" ?p 0 "''d''" 0 2 "[]"]
  note t2 = start_contract [of ?s2 "Resolved ''d''" ?p 0 "''d''" 0 2 "[]"]
  from th b have p1: "pending ?s1 = [AwaitStart]"
    by (simp add: initial_def)
  then have h1: "0 < length (pending ?s1) \<and> pending ?s1 ! 0 = AwaitStart" by simp
  from t1 h1 have r1: "running ?s2" and r2: "logs ?s2 = []"
    and p2: "pending ?s2 = take 0 (pending ?s1) @ drop (Suc 0) (pending ?s1) @ [AwaitPollInStart]"
    and pt: "pollTimer ?s2 = pollTimer ?s1" and iv: "intervals ?s2 = intervals ?s1"
    by blast+
  from p2 p1 have h2: "0 < length (pending ?s2) \<and> pending ?s2 ! 0 = AwaitPollInStart" by simp
  from th b have s1t: "pollTimer ?s1 = None \<and> intervals ?s1 = []"
    by (simp add: initial_def)
  have d: "one_timer ?s2" using pt iv s1t by (simp add: one_timer_def)
  from t0 a have k0: "step ClickStart ?s0 = ?s0\<lparr>errorText := AddressRequired\<rparr>"
    by blast
  from t2 h2 d have k1: "intervals (step (Settle 0 (PollReply ?p)) ?s2) = [(nextHandle ?s2, 1000)]"
    by blast
  from t2 h2 have k2: "calls (run (replicate 2 (Tick (nextHandle ?s2))) (step (Settle 0 (PollReply ?p)) ?s2))
      = calls ?s2 @ replicate 2 GetRecentLogs"
    by blast
  from th b have k3: "running (startPing (Resolved ''d'') ?p ?sh)"
    by blast
  from th b c have k4: "intervals (startPing (Resolved ''d'') ?p ?sh) = [(nextHandle ?sh, 1000)]"
    by blast
  show ?thesis
    by (intro conjI) (rule a k0 b p1 conjunct1 [OF h1] conjunct2 [OF h1] r1 r2
        conjunct1 [OF h2] conjunct2 [OF h2] d k1 k2 c k3 k4)+
qed

section \<open>Rejected backend calls\<close>

text \<open>
  Claim C8. When the start command rejects with \<open>err\<close>, a run of \<^verbatim>\<open>startPing\<close> leaves the
  state as it was except for the inline error, now \<open>err\<close>, and the record of the invoked
  command: the running flag, the buffer, the render count, \<^verbatim>\<open>pollTimer\<close> and the active
  intervals are untouched. The same holds for \<^verbatim>\<open>stopPing\<close> when the stop command rejects.
  It also holds at the level of single events: whenever the rejection of a pending
  start or stop call is delivered, whatever happened in between, that event only sets
  the inline error and retires the promise.
\<close>

theorem backend_failure_atomic:
  "(trim (addressInput s) \<noteq> [] \<longrightarrow>
      startPing (Rejected err) p s
        = s\<lparr>errorText := Text err, calls := calls s @ [StartPing (trim (addressInput s))]\<rparr>) \<and>
   stopPing (Rejected err) s = s\<lparr>errorText := Text err, calls := calls s @ [StopPing]\<rparr> \<and>
   (i < length (pending s) \<and> pending s ! i = AwaitStart \<longrightarrow>
      step (Settle i (StartReply (Rejected err))) s
        = s\<lparr>errorText := Text err, pending := take i (pending s) @ drop (Suc i) (pending s)\<rparr>) \<and>
   (i < length (pending s) \<and> pending s ! i = AwaitStop \<longrightarrow>
      step (Settle i (StopReply (Rejected err))) s
        = s\<lparr>errorText := Text err, pending := take i (pending s) @ drop (Suc i) (pending s)\<rparr>)"
  using startPing_rejected_run [of s err p] stopPing_rejected_run [of err s]
  by (simp add: resume_def startPing_rejected_def stopPing_rejected_def setError_def)

text \<open>
  The hypotheses met: a start with address \<^verbatim>\<open>"h"\<close> rejected with \<^verbatim>\<open>"no route"\<close>, and a
  stop rejected with \<^verbatim>\<open>"busy"\<close>.
\<close>

theorem backend_failure_atomic_witness:
  "trim (addressInput (initial\<lparr>addressInput := ''h''\<rparr>)) \<noteq> [] \<and>
   startPing (Rejected ''no route'') (Resolved JNull) (initial\<lparr>addressInput := ''h''\<rparr>)
     = (initial\<lparr>addressInput := ''h''\<rparr>)\<lparr>errorText := Text ''no route'',
          calls := calls (initial\<lparr>addressInput := ''h''\<rparr>) @ [StartPing (trim (addressInput (initial\<lparr>addressInput := ''h''\<rparr>)))]\<rparr> \<and>
   0 < length (pending (step ClickStart (initial\<lparr>addressInput := ''h''\<rparr>))) \<and>
   pending (step ClickStart (initial\<lparr>addressInput := ''h''\<rparr>)) ! 0 = AwaitStart \<and>
   step (Settle 0 (StartReply (Rejected ''no route''))) (step ClickStart (initial\<lparr>addressInput := ''h''\<rparr>))
     = (step ClickStart (initial\<lparr>addressInput := ''h''\<rparr>))\<lparr>errorText := Text ''no route'',
          pending := take 0 (pending (step ClickStart (initial\<lparr>addressInput := ''h''\<rparr>)))
                     @ drop (Suc 0) (pending (step ClickStart (initial\<lparr>addressInput := ''h''\<rparr>)))\<rparr> \<and>
   0 < length (pending (step ClickStop initial)) \<and>
   pending (step ClickStop initial) ! 0 = AwaitStop \<and>
   step (Settle 0 (StopReply (Rejected ''busy''))) (step ClickStop initial)
     = (step ClickStop initial)\<lparr>errorText := Text ''busy'',
          pending := take 0 (pending (step ClickStop initial)) @ drop (Suc 0) (pending (step ClickStop initial))\<rparr>"
proof -
  let ?s = "initial\<lparr>addressInput := ''h''\<rparr>"
  have a: "trim (addressInput ?s) \<noteq> []"
    by (simp add: trim_def is_space_def)
  have b: "0 < length (pending (step ClickStart ?s)) \<and> pending (step ClickStart ?s) ! 0 = AwaitStart"
    by (simp add: startPing_begin_def trim_def is_space_def invoke_def setError_def initial_def Let_def)
  have c: "0 < length (pending (step ClickStop initial)) \<and> pending (step ClickStop initial) ! 0 = AwaitStop"
    by (simp add: stopPing_begin_def invoke_def setError_def initial_def)
  note t1 = backend_failure_atomic [of ?s "''no route''" "Resolved JNull" 0]
  note t2 = backend_failure_atomic [of "step ClickStart ?s" "''no route''" "Resolved JNull" 0]
  note t3 = backend_failure_atomic [of "step ClickStop initial" "''busy''" "Resolved JNull" 0]
  show ?thesis using a b c t1 t2 t3 by blast
qed

section \<open>Polls in flight\<close>

lemma polls_in_flight_invoke:
  "polls_in_flight (fetchLogs_begin AwaitPoll s) = Suc (polls_in_flight s)"
  by (simp add: polls_in_flight_def fetchLogs_begin_def invoke_def)

lemma tick_active:
  assumes "h \<in> fst ` set (intervals s)"
  shows "step (Tick h) s = fetchLogs_begin AwaitPoll s"
  using assms by simp

lemma ticks_accumulate:
  assumes "h \<in> fst ` set (intervals s)"
  shows "polls_in_flight (run (replicate n (Tick h)) s) = polls_in_flight s + n"
  using assms
proof (induction n arbitrary: s)
  case 0
  then show ?case by (simp add: run_Nil)
next
  case (Suc n)
  have st: "step (Tick h) s = fetchLogs_begin AwaitPoll s" by (rule tick_active [OF Suc.prems])
  have still: "h \<in> fst ` set (intervals (step (Tick h) s))"
    using Suc.prems unfolding st by (simp add: fetchLogs_begin_def invoke_def)
  have "run (replicate (Suc n) (Tick h)) s = run (replicate n (Tick h)) (step (Tick h) s)"
    by (simp add: run_Cons)
  also have "polls_in_flight (run (replicate n (Tick h)) (step (Tick h) s))
      = polls_in_flight (step (Tick h) s) + n"
    by (rule Suc.IH [OF still])
  also have "polls_in_flight (step (Tick h) s) = Suc (polls_in_flight s)"
    by (simp only: st polls_in_flight_invoke)
  finally show ?case by simp
qed

lemma count_without_nth:
  assumes "i < length xs" and "P (xs ! i)"
  shows "length (filter P (take i xs @ drop (Suc i) xs)) = length (filter P xs) - 1"
proof -
  have "xs = take i xs @ xs ! i # drop (Suc i) xs"
    using assms(1) by (rule id_take_nth_drop)
  then have "length (filter P xs) = length (filter P (take i xs @ xs ! i # drop (Suc i) xs))"
    by simp
  then show ?thesis using assms(2) by simp
qed

text \<open>
  Claim C9, as the code has it. \<^verbatim>\<open>setInterval(fetchLogs, 1000)\<close> calls \<^verbatim>\<open>fetchLogs\<close> at every
  tick and does not wait for the promise of an earlier call. A tick of an active
  interval invokes one more poll and raises the number of polls in flight by one,
  whatever that number was; \<open>n\<close> ticks in a row raise it by \<open>n\<close>. The settlement of a
  pending poll lowers the number by one.
\<close>

theorem ticks_issue_polls:
  "(h \<in> fst ` set (intervals s) \<longrightarrow>
      polls_in_flight (step (Tick h) s) = Suc (polls_in_flight s) \<and>
      calls (step (Tick h) s) = calls s @ [GetRecentLogs] \<and>
      polls_in_flight (run (replicate n (Tick h)) s) = polls_in_flight s + n) \<and>
   (i < length (pending s) \<and> pending s ! i = AwaitPoll \<longrightarrow>
      polls_in_flight (step (Settle i (PollReply p)) s) = polls_in_flight s - 1)"
proof (intro conjI impI)
  assume act: "h \<in> fst ` set (intervals s)"
  show "polls_in_flight (step (Tick h) s) = Suc (polls_in_flight s)"
    by (simp only: tick_active [OF act] polls_in_flight_invoke)
  show "calls (step (Tick h) s) = calls s @ [GetRecentLogs]"
    unfolding tick_active [OF act] by (simp add: fetchLogs_begin_def invoke_def)
  show "polls_in_flight (run (replicate n (Tick h)) s) = polls_in_flight s + n"
    by (rule ticks_accumulate [OF act])
next
  assume a: "i < length (pending s) \<and> pending s ! i = AwaitPoll"
  let ?s1 = "s\<lparr>pending := take i (pending s) @ drop (Suc i) (pending s)\<rparr>"
  have "step (Settle i (PollReply p)) s = fetchLogs_settled p ?s1"
    using a by (simp add: resume_def)
  then have "polls_in_flight (step (Settle i (PollReply p)) s)
      = length (filter (\<lambda>k. k = AwaitPoll \<or> k = AwaitPollInStart)
          (take i (pending s) @ drop (Suc i) (pending s)))"
    by (simp add: polls_in_flight_def fetchLogs_settled_keeps)
  also have "\<dots> = length (filter (\<lambda>k. k = AwaitPoll \<or> k = AwaitPollInStart) (pending s)) - 1"
    using a by (intro count_without_nth) simp_all
  finally show "polls_in_flight (step (Settle i (PollReply p)) s) = polls_in_flight s - 1"
    by (simp add: polls_in_flight_def)
qed

text \<open>
  Against C9 as stated: after a start whose immediate poll has settled, two ticks of
  the interval with no settlement in between leave two polls in flight while running.
\<close>

theorem overlapping_polls:
  "running (run [TypeAddress ''h'', ClickStart, Settle 0 (StartReply (Resolved ''d'')),
                 Settle 0 (PollReply (Resolved (JArr []))), Tick 1, Tick 1] initial) \<and>
   polls_in_flight (run [TypeAddress ''h'', ClickStart, Settle 0 (StartReply (Resolved ''d'')),
                 Settle 0 (PollReply (Resolved (JArr []))), Tick 1, Tick 1] initial) = 2"
  by (simp add: run_def startPing_begin_def trim_def is_space_def invoke_def setError_def
      initial_def resume_def startPing_resolved_def fetchLogs_begin_def setRunning_def
      fetchLogs_resolved_eq discarded_def reconcile_cases startPing_arm_def setInterval_def
      polls_in_flight_def Let_def renderLogs_def)

text \<open>
  The hypotheses met in the state after a completed start: interval 1 is active, and
  after one tick the pending promise 0 is a poll.
\<close>

theorem ticks_issue_polls_witness:
  "1 \<in> fst ` set (intervals (run [TypeAddress ''h'', ClickStart, Settle 0 (StartReply (Resolved ''d'')),
                 Settle 0 (PollReply (Resolved (JArr [])))] initial)) \<and>
   polls_in_flight (run (replicate 3 (Tick 1))
      (run [TypeAddress ''h'', ClickStart, Settle 0 (StartReply (Resolved ''d'')),
            Settle 0 (PollReply (Resolved (JArr [])))] initial))
     = polls_in_flight (run [TypeAddress ''h'', ClickStart, Settle 0 (StartReply (Resolved ''d'')),
            Settle 0 (PollReply (Resolved (JArr [])))] initial) + 3 \<and>
   0 < length (pending (step (Tick 1) (run [TypeAddress ''h'', ClickStart, Settle 0 (StartReply (Resolved ''d'')),
            Settle 0 (PollReply (Resolved (JArr [])))] initial))) \<and>
   pending (step (Tick 1) (run [TypeAddress ''h'', ClickStart, Settle 0 (StartReply (Resolved ''d'')),
            Settle 0 (PollReply (Resolved (JArr [])))] initial)) ! 0 = AwaitPoll \<and>
   polls_in_flight (step (Settle 0 (PollReply (Rejected ''x''))) (step (Tick 1) (run [TypeAddress ''h'', ClickStart, Settle 0 (StartReply (Resolved ''d'')),
            Settle 0 (PollReply (Resolved (JArr [])))] initial)))
     = polls_in_flight (step (Tick 1) (run [TypeAddress ''h'', ClickStart, Settle 0 (StartReply (Resolved ''d'')),
            Settle 0 (PollReply (Resolved (JArr [])))] initial)) - 1"
proof -
  let ?s = "run [TypeAddress ''h'', ClickStart, Settle 0 (StartReply (Resolved ''d'')),
            Settle 0 (PollReply (Resolved (JArr [])))] initial"
  have s: "intervals ?s = [(1, 1000)] \<and> pending ?s = []"
    by (simp add: run_def startPing_begin_def trim_def is_space_def invoke_def setError_def
      initial_def resume_def startPing_resolved_def fetchLogs_begin_def setRunning_def
      fetchLogs_resolved_eq discarded_def reconcile_cases startPing_arm_def setInterval_def
      Let_def renderLogs_def)
  have a: "1 \<in> fst ` set (intervals ?s)" using s by simp
  have b: "0 < length (pending (step (Tick 1) ?s)) \<and> pending (step (Tick 1) ?s) ! 0 = AwaitPoll"
    using s by (simp add: fetchLogs_begin_def invoke_def)
  note t1 = ticks_issue_polls [of 1 ?s 3 0 "Rejected ''x''"]
  note t2 = ticks_issue_polls [of 1 "step (Tick 1) ?s" 3 0 "Rejected ''x''"]
  show ?thesis using a b t1 t2 by blast
qed

section \<open>Capacity and eviction in reachable states\<close>

lemma run_start_is_startPing:
  "run [TypeAddress a, ClickStart, Settle 0 (StartReply (Resolved d)), Settle 0 (PollReply p)] initial
     = startPing (Resolved d) p (initial\<lparr>addressInput := a\<rparr>)"
  by (simp add: run_def startPing_def initial_def Let_def)

lemma logs_startPing_resolved_run:
  assumes "trim (addressInput s) \<noteq> []"
  shows "logs (startPing (Resolved d) p s) =
     (case p of
        Rejected err \<Rightarrow> []
      | Resolved recent \<Rightarrow>
          if discarded recent then [] else take maxLogs (normalizeEntries recent))"
  unfolding startPing_resolved_run [OF assms]
  by (simp add: logs_startPing_arm logs_fetchLogs_settled_eq logs_renderLogs split: settled.splits)

lemma logs_after_start_poll:
  assumes "trim a \<noteq> []" and "\<not> discarded recent"
  shows "logs (run [TypeAddress a, ClickStart, Settle 0 (StartReply (Resolved d)),
                    Settle 0 (PollReply (Resolved recent))] initial)
           = take maxLogs (normalizeEntries recent)"
proof -
  have "trim (addressInput (initial\<lparr>addressInput := a\<rparr>)) \<noteq> []" using assms(1) by simp
  from logs_startPing_resolved_run [OF this, of d "Resolved recent"] assms(2)
  show ?thesis unfolding run_start_is_startPing by simp
qed

lemma listener_obj_entry:
  "ping_log_listener (JObj [(''payload'', obj_entry q t)]) s = addLog (obj_entry q t) s"
  by (simp add: ping_log_listener_def obj_entry_def Let_def)

text \<open>
  Claim C4, as the code has it. In every state reachable from the initial one by any
  sequence of events the buffer holds at most 100 entries. When \<^verbatim>\<open>addLog\<close> accepts an entry
  into a buffer of 100, the buffer afterwards is the old one without its first entry,
  followed by the new entry: the entry evicted is the first in buffer order. It has a
  smaller \<^verbatim>\<open>seq\<close> than everything that stays whenever the buffer is strictly increasing in
  \<^verbatim>\<open>seq\<close>, and so in every reachable state all of whose poll snapshots were ordered.
  Appending the entries with \<^verbatim>\<open>seq\<close> 1 to 101, whatever their lines, to the empty buffer
  leaves exactly the entries with \<^verbatim>\<open>seq\<close> 2 to 101.
\<close>

theorem buffer_bounded_fifo:
  "length (logs (run evs initial)) \<le> 100 \<and>
   (as_entry item = Some e \<and> length (logs s) = 100 \<and> seq (last (logs s)) < seq e \<longrightarrow>
      logs (addLog item s) = tl (logs s) @ [e]) \<and>
   (sorted_wrt (<) (map seq (logs s)) \<and> as_entry item = Some e \<and> length (logs s) = 100 \<and>
    seq (last (logs s)) < seq e \<longrightarrow>
      (\<forall>x \<in> set (logs (addLog item s)). seq (hd (logs s)) < seq x)) \<and>
   (list_all snapshot_ordered evs \<and> as_entry item = Some e \<and>
    length (logs (run evs initial)) = 100 \<and> seq (last (logs (run evs initial))) < seq e \<longrightarrow>
      logs (addLog item (run evs initial)) = tl (logs (run evs initial)) @ [e] \<and>
      (\<forall>x \<in> set (logs (addLog item (run evs initial))). seq (hd (logs (run evs initial))) < seq x)) \<and>
   logs (fold addLog (map (\<lambda>i. obj_entry (of_nat i) (lbl i)) [1..<102]) initial)
     = map (\<lambda>i. \<lparr>seq = of_nat i, line = lbl i\<rparr>) [2..<102]"
proof (intro conjI impI)
  show "length (logs (run evs initial)) \<le> 100"
    using length_logs_run [of evs] by (simp add: maxLogs_def)
next
  assume "as_entry item = Some e \<and> length (logs s) = 100 \<and> seq (last (logs s)) < seq e"
  then show "logs (addLog item s) = tl (logs s) @ [e]"
    using addLog_overflow [of item e s] by (simp add: maxLogs_def)
next
  assume "sorted_wrt (<) (map seq (logs s)) \<and> as_entry item = Some e \<and> length (logs s) = 100 \<and>
    seq (last (logs s)) < seq e"
  then show "\<forall>x \<in> set (logs (addLog item s)). seq (hd (logs s)) < seq x"
    using evicted_is_lowest [of s item e] by (simp add: maxLogs_def)
next
  assume a: "list_all snapshot_ordered evs \<and> as_entry item = Some e \<and>
    length (logs (run evs initial)) = 100 \<and> seq (last (logs (run evs initial))) < seq e"
  then show "logs (addLog item (run evs initial)) = tl (logs (run evs initial)) @ [e]"
    using addLog_overflow [of item e "run evs initial"] by (simp add: maxLogs_def)
  from a have "sorted_wrt (<) (map seq (logs (run evs initial)))"
    using sorted_logs_run [of evs] by simp
  with a show "\<forall>x \<in> set (logs (addLog item (run evs initial))). seq (hd (logs (run evs initial))) < seq x"
    using evicted_is_lowest [of "run evs initial" item e] by (simp add: maxLogs_def)
next
  show "logs (fold addLog (map (\<lambda>i. obj_entry (of_nat i) (lbl i)) [1..<102]) initial)
     = map (\<lambda>i. \<lparr>seq = of_nat i, line = lbl i\<rparr>) [2..<102]"
    by (rule hundred_and_one_appends)
qed

lemma full_ordered_run:
  "logs (run [TypeAddress ''h'', ClickStart, Settle 0 (StartReply (Resolved ''d'')),
          Settle 0 (PollReply (Resolved (JArr (map (\<lambda>i. obj_entry (of_nat i) []) [1..<101]))))] initial)
     = map (\<lambda>i. \<lparr>seq = of_nat i, line = []\<rparr>) [1..<101]"
proof -
  let ?r = "JArr (map (\<lambda>i. obj_entry (of_nat i) []) [1..<101])"
  have n: "normalizeEntries ?r = map (\<lambda>i. \<lparr>seq = of_nat i, line = []\<rparr>) [1..<101]"
    by (simp add: keep_valid_map_obj)
  have nd: "\<not> discarded ?r" unfolding discarded_def n by simp
  have tr: "trim ''h'' \<noteq> []" by (simp add: trim_def is_space_def)
  show ?thesis
    unfolding logs_after_start_poll [OF tr nd] n by (simp add: maxLogs_def)
qed

text \<open>
  The hypotheses met: a buffer holding \<^verbatim>\<open>seq\<close> 1 to 100, given directly and reached by a
  start whose immediate poll returned those hundred entries, receives \<^verbatim>\<open>seq = 101\<close>.
\<close>

theorem buffer_bounded_fifo_witness:
  "as_entry (obj_entry 101 []) = Some \<lparr>seq = 101, line = []\<rparr> \<and>
   sorted_wrt (<) (map seq (logs (initial\<lparr>logs := map (\<lambda>i. \<lparr>seq = of_nat i, line = []\<rparr>) [1..<101]\<rparr>))) \<and>
   length (logs (initial\<lparr>logs := map (\<lambda>i. \<lparr>seq = of_nat i, line = []\<rparr>) [1..<101]\<rparr>)) = 100 \<and>
   seq (last (logs (initial\<lparr>logs := map (\<lambda>i. \<lparr>seq = of_nat i, line = []\<rparr>) [1..<101]\<rparr>))) < seq \<lparr>seq = 101, line = []\<rparr> \<and>
   logs (addLog (obj_entry 101 []) (initial\<lparr>logs := map (\<lambda>i. \<lparr>seq = of_nat i, line = []\<rparr>) [1..<101]\<rparr>))
     = tl (logs (initial\<lparr>logs := map (\<lambda>i. \<lparr>seq = of_nat i, line = []\<rparr>) [1..<101]\<rparr>)) @ [\<lparr>seq = 101, line = []\<rparr>] \<and>
   \<lparr>seq = 101, line = []\<rparr> \<in> set (logs (addLog (obj_entry 101 []) (initial\<lparr>logs := map (\<lambda>i. \<lparr>seq = of_nat i, line = []\<rparr>) [1..<101]\<rparr>))) \<and>
   seq (hd (logs (initial\<lparr>logs := map (\<lambda>i. \<lparr>seq = of_nat i, line = []\<rparr>) [1..<101]\<rparr>))) < seq \<lparr>seq = 101, line = []\<rparr> \<and>
   list_all snapshot_ordered
     [TypeAddress ''h'', ClickStart, Settle 0 (StartReply (Resolved ''d'')),
      Settle 0 (PollReply (Resolved (JArr (map (\<lambda>i. obj_entry (of_nat i) []) [1..<101]))))] \<and>
   length (logs (run [TypeAddress ''h'', ClickStart, Settle 0 (StartReply (Resolved ''d'')),
      Settle 0 (PollReply (Resolved (JArr (map (\<lambda>i. obj_entry (of_nat i) []) [1..<101]))))] initial)) = 100 \<and>
   seq (last (logs (run [TypeAddress ''h'', ClickStart, Settle 0 (StartReply (Resolved ''d'')),
      Settle 0 (PollReply (Resolved (JArr (map (\<lambda>i. obj_entry (of_nat i) []) [1..<101]))))] initial)))
     < seq \<lparr>seq = 101, line = []\<rparr> \<and>
   \<lparr>seq = 101, line = []\<rparr> \<in> set (logs (addLog (obj_entry 101 [])
      (run [TypeAddress ''h'', ClickStart, Settle 0 (StartReply (Resolved ''d'')),
        Settle 0 (PollReply (Resolved (JArr (map (\<lambda>i. obj_entry (of_nat i) []) [1..<101]))))] initial))) \<and>
   seq (hd (logs (run [TypeAddress ''h'', ClickStart, Settle 0 (StartReply (Resolved ''d'')),
      Settle 0 (PollReply (Resolved (JArr (map (\<lambda>i. obj_entry (of_nat i) []) [1..<101]))))] initial)))
     < seq \<lparr>seq = 101, line = []\<rparr>"
proof -
  let ?s = "initial\<lparr>logs := map (\<lambda>i. \<lparr>seq = of_nat i, line = []\<rparr>) [1..<101]\<rparr>"
  let ?e = "\<lparr>seq = 101, line = []\<rparr>"
  let ?evs = "[TypeAddress ''h'', ClickStart, Settle 0 (StartReply (Resolved ''d'')),
      Settle 0 (PollReply (Resolved (JArr (map (\<lambda>i. obj_entry (of_nat i) []) [1..<101]))))]"
  have h1: "as_entry (obj_entry 101 []) = Some ?e" by (simp add: as_entry_obj_entry)
  have h2: "sorted_wrt (<) (map seq (logs ?s))" by (simp add: comp_def sorted_wrt_map)
  have h3: "length (logs ?s) = 100" by simp
  have h4: "seq (last (logs ?s)) < seq ?e" by (simp add: last_map)
  have g1: "list_all snapshot_ordered ?evs"
    by (simp add: keep_valid_map_obj comp_def sorted_wrt_map)
  have g3: "length (logs (run ?evs initial)) = 100" unfolding full_ordered_run by simp
  have g4: "seq (last (logs (run ?evs initial))) < seq ?e"
    unfolding full_ordered_run by (simp add: last_map)
  note t = buffer_bounded_fifo [of ?evs "obj_entry 101 []" ?e ?s "\<lambda>i. []"]
  from t h1 h3 h4 have r1: "logs (addLog (obj_entry 101 []) ?s) = tl (logs ?s) @ [?e]"
    by blast
  then have r2: "?e \<in> set (logs (addLog (obj_entry 101 []) ?s))" by simp
  from t h1 h2 h3 h4 r2 have r3: "seq (hd (logs ?s)) < seq ?e" by blast
  from t h1 g1 g3 g4 have q1: "logs (addLog (obj_entry 101 []) (run ?evs initial))
      = tl (logs (run ?evs initial)) @ [?e]"
    by blast
  then have q2: "?e \<in> set (logs (addLog (obj_entry 101 []) (run ?evs initial)))" by simp
  from t h1 g1 g3 g4 q2 have q3: "seq (hd (logs (run ?evs initial))) < seq ?e" by blast
  show ?thesis using h1 h2 h3 h4 r1 r2 r3 g1 g3 g4 q2 q3 by blast
qed

text \<open>
  Against C4 as stated: the immediate poll of a start returns a hundred entries with
  \<^verbatim>\<open>seq\<close> 200 first and then 1 to 99; the push of \<^verbatim>\<open>seq = 100\<close> is accepted and overflows,
  and the entry evicted is the one with \<^verbatim>\<open>seq = 200\<close>, the highest in the buffer, while
  every entry of lower \<^verbatim>\<open>seq\<close> stays.
\<close>

theorem overflow_evicts_higher_seq:
  "map seq (logs (run [TypeAddress ''h'', ClickStart, Settle 0 (StartReply (Resolved ''d'')),
      Settle 0 (PollReply (Resolved (JArr (obj_entry 200 [] #
         map (\<lambda>i. obj_entry (of_nat i) []) [1..<100]))))] initial))
     = 200 # map of_nat [1..<100] \<and>
   map seq (logs (step (PingLog (JObj [(''payload'', obj_entry 100 [])]))
     (run [TypeAddress ''h'', ClickStart, Settle 0 (StartReply (Resolved ''d'')),
      Settle 0 (PollReply (Resolved (JArr (obj_entry 200 [] #
         map (\<lambda>i. obj_entry (of_nat i) []) [1..<100]))))] initial)))
     = map of_nat [1..<100] @ [100]"
proof -
  let ?r = "JArr (obj_entry 200 [] # map (\<lambda>i. obj_entry (of_nat i) []) [1..<100])"
  let ?S = "run [TypeAddress ''h'', ClickStart, Settle 0 (StartReply (Resolved ''d'')),
      Settle 0 (PollReply (Resolved ?r))] initial"
  let ?L = "\<lparr>seq = 200, line = []\<rparr> # map (\<lambda>i. \<lparr>seq = of_nat i, line = []\<rparr>) [1..<100]"
  have n: "normalizeEntries ?r = ?L"
    by (simp add: keep_valid_map_obj as_entry_obj_entry)
  have nd: "\<not> discarded ?r" unfolding discarded_def n by simp
  have tr: "trim ''h'' \<noteq> []" by (simp add: trim_def is_space_def)
  have L: "logs ?S = ?L"
    unfolding logs_after_start_poll [OF tr nd] n by (simp add: maxLogs_def)
  have acc: "\<not> (logs ?S \<noteq> [] \<and> seq (last (logs ?S)) \<ge> seq \<lparr>seq = 100, line = []\<rparr>)"
    unfolding L by (simp add: last_map)
  have "logs (step (PingLog (JObj [(''payload'', obj_entry 100 [])])) ?S)
      = logs (addLog (obj_entry 100 []) ?S)"
    by (simp only: step.simps listener_obj_entry)
  also have "\<dots> = (if length (logs ?S @ [\<lparr>seq = 100, line = []\<rparr>]) > maxLogs
      then tl (logs ?S @ [\<lparr>seq = 100, line = []\<rparr>]) else logs ?S @ [\<lparr>seq = 100, line = []\<rparr>])"
    by (rule logs_addLog_accept [OF as_entry_obj_entry acc])
  also have "\<dots> = map (\<lambda>i. \<lparr>seq = of_nat i, line = []\<rparr>) [1..<100] @ [\<lparr>seq = 100, line = []\<rparr>]"
    unfolding L by (simp add: maxLogs_def)
  finally have after: "logs (step (PingLog (JObj [(''payload'', obj_entry 100 [])])) ?S)
      = map (\<lambda>i. \<lparr>seq = of_nat i, line = []\<rparr>) [1..<100] @ [\<lparr>seq = 100, line = []\<rparr>]" .
  show ?thesis unfolding after L by (simp add: comp_def)
qed

end
